theory Spec2Isabelle
  imports Complex_Main "HOL-Library.Sublist"
begin

section \<open>JavaScript values used by the retrieval core\<close>

subsection \<open>Numbers\<close>

text \<open>
  A JavaScript number is an IEEE-754 double. The model keeps the three special values the
  code can produce and idealises the finite ones as reals (no rounding, no overflow, one
  zero). Division never raises: \<open>0 / 0\<close> is \<open>NaN\<close>, and \<open>x / 0\<close> for \<open>x \<noteq> 0\<close> is an
  infinity with the sign of \<open>x\<close>.
\<close>

datatype jsnum = NaN | Fin real | PInf | NInf

fun js_neg :: "jsnum \<Rightarrow> jsnum" where
  "js_neg NaN = NaN"
| "js_neg (Fin a) = Fin (- a)"
| "js_neg PInf = NInf"
| "js_neg NInf = PInf"

fun js_add :: "jsnum \<Rightarrow> jsnum \<Rightarrow> jsnum" where
  "js_add NaN _ = NaN"
| "js_add _ NaN = NaN"
| "js_add (Fin a) (Fin b) = Fin (a + b)"
| "js_add PInf NInf = NaN"
| "js_add NInf PInf = NaN"
| "js_add PInf _ = PInf"
| "js_add _ PInf = PInf"
| "js_add NInf _ = NInf"
| "js_add _ NInf = NInf"

definition js_sub :: "jsnum \<Rightarrow> jsnum \<Rightarrow> jsnum" where
  "js_sub a b = js_add a (js_neg b)"

definition js_sign :: "jsnum \<Rightarrow> int" where
  "js_sign a = (case a of NaN \<Rightarrow> 0 | Fin x \<Rightarrow> (if x < 0 then - 1 else if x = 0 then 0 else 1)
                | PInf \<Rightarrow> 1 | NInf \<Rightarrow> - 1)"

definition js_inf :: "int \<Rightarrow> jsnum" where
  "js_inf s = (if s = 0 then NaN else if 0 < s then PInf else NInf)"

fun js_mul :: "jsnum \<Rightarrow> jsnum \<Rightarrow> jsnum" where
  "js_mul NaN _ = NaN"
| "js_mul _ NaN = NaN"
| "js_mul (Fin a) (Fin b) = Fin (a * b)"
| "js_mul a b = js_inf (js_sign a * js_sign b)"

fun js_div :: "jsnum \<Rightarrow> jsnum \<Rightarrow> jsnum" where
  "js_div NaN _ = NaN"
| "js_div _ NaN = NaN"
| "js_div (Fin a) (Fin b) = (if b = 0 then js_inf (js_sign (Fin a)) else Fin (a / b))"
| "js_div (Fin a) _ = Fin 0"
| "js_div a (Fin b) = js_inf (js_sign a * (if b < 0 then - 1 else 1))"
| "js_div _ _ = NaN"

fun js_sqrt :: "jsnum \<Rightarrow> jsnum" where
  "js_sqrt (Fin a) = (if a < 0 then NaN else Fin (sqrt a))"
| "js_sqrt PInf = PInf"
| "js_sqrt _ = NaN"

fun js_log :: "jsnum \<Rightarrow> jsnum" where
  "js_log (Fin a) = (if a < 0 then NaN else if a = 0 then NInf else Fin (ln a))"
| "js_log PInf = PInf"
| "js_log _ = NaN"

text \<open>The comparison \<open>a > b\<close>: false as soon as one side is \<open>NaN\<close>.\<close>

fun js_gt :: "jsnum \<Rightarrow> jsnum \<Rightarrow> bool" where
  "js_gt NaN _ = False"
| "js_gt _ NaN = False"
| "js_gt (Fin a) (Fin b) = (b < a)"
| "js_gt PInf PInf = False"
| "js_gt PInf _ = True"
| "js_gt _ PInf = False"
| "js_gt NInf _ = False"
| "js_gt _ NInf = True"

definition js_ge :: "jsnum \<Rightarrow> jsnum \<Rightarrow> bool" where
  "js_ge a b = (a \<noteq> NaN \<and> b \<noteq> NaN \<and> \<not> js_gt b a)"

text \<open>\<open>Math.max(...xs)\<close>: \<open>-Infinity\<close> on no argument, \<open>NaN\<close> as soon as one argument is.\<close>

definition js_max2 :: "jsnum \<Rightarrow> jsnum \<Rightarrow> jsnum" where
  "js_max2 a b = (if a = NaN \<or> b = NaN then NaN else if js_gt b a then b else a)"

definition Math_max :: "jsnum list \<Rightarrow> jsnum" where
  "Math_max xs = foldl js_max2 NInf xs"

text \<open>\<open>x || 0\<close> on a number: \<open>0\<close> and \<open>NaN\<close> are falsy.\<close>

definition or_zero :: "jsnum \<Rightarrow> jsnum" where
  "or_zero x = (if x = NaN \<or> x = Fin 0 then Fin 0 else x)"

abbreviation js_nat :: "nat \<Rightarrow> jsnum" where
  "js_nat n \<equiv> Fin (real n)"

subsection \<open>Strings\<close>

text \<open>
  A JavaScript string is a sequence of UTF-16 code units; a \<^typ>\<open>char\<close> stands for a code
  unit below 256, so that \<open>length\<close> is \<open>.length\<close>. Within that range the white space of
  \<open>\s\<close> and of \<open>trim\<close> is tab, line feed, vertical tab, form feed, carriage return,
  space and the no-break space.
\<close>

abbreviation LF :: char where
  "LF \<equiv> CHR 0x0A"

definition is_space :: "char \<Rightarrow> bool" where
  "is_space c = (of_char c \<in> {9, 10, 11, 12, 13, 32, 160 :: nat})"

definition trim :: "string \<Rightarrow> string" where
  "trim s = rev (dropWhile is_space (rev (dropWhile is_space s)))"

definition lower_char :: "char \<Rightarrow> char" where
  "lower_char c =
     (let n = (of_char c :: nat)
      in if (65 \<le> n \<and> n \<le> 90) \<or> (192 \<le> n \<and> n \<le> 222 \<and> n \<noteq> 215)
         then char_of (n + 32) else c)"

definition toLowerCase :: "string \<Rightarrow> string" where
  "toLowerCase s = map lower_char s"

definition startsWith :: "string \<Rightarrow> string \<Rightarrow> bool" where
  "startsWith s p = (take (length p) s = p)"

fun includes_str :: "string \<Rightarrow> string \<Rightarrow> bool" where
  "includes_str [] p = (p = [])"
| "includes_str (c # cs) p = (startsWith (c # cs) p \<or> includes_str cs p)"

text \<open>\<open>s.replace(p, r)\<close> with a string pattern replaces the first occurrence only.\<close>

fun replace_first :: "string \<Rightarrow> string \<Rightarrow> string \<Rightarrow> string" where
  "replace_first [] p r = (if p = [] then r else [])"
| "replace_first (c # cs) p r =
     (if startsWith (c # cs) p then r @ drop (length p) (c # cs)
      else c # replace_first cs p r)"

text \<open>\<open>s.split('\n')\<close>: the pieces between line feeds, empty ones kept.\<close>

fun split_lines :: "string \<Rightarrow> string list" where
  "split_lines [] = [[]]"
| "split_lines (c # cs) =
     (if c = LF then [] # split_lines cs
      else (case split_lines cs of l # ls \<Rightarrow> (c # l) # ls | [] \<Rightarrow> [[c]]))"

text \<open>Decimal rendering of a non-negative integer, as a template literal prints it.\<close>

definition digit_char :: "nat \<Rightarrow> char" where
  "digit_char d = char_of (48 + d)"

function show_nat :: "nat \<Rightarrow> string" where
  "show_nat n = (if n < 10 then [digit_char n] else show_nat (n div 10) @ [digit_char (n mod 10)])"
  by pat_completeness auto
termination
  by (relation "measure id") auto

declare show_nat.simps [simp del]

subsection \<open>Regular expressions\<close>

text \<open>
  The regular expressions of the source are matched by backtracking, and which match is
  found depends on the order in which the alternatives are tried. A position in a text is
  the reversed text before it and the text after it; \<open>m r p\<close> lists the positions where a
  match of \<open>r\<close> started at \<open>p\<close> can end, in the order backtracking tries them: a greedy
  quantifier tries one more iteration first, a lazy one tries to stop first, and an
  iteration that consumes nothing is not repeated. \<open>LineStart\<close> is \<open>^\<close> under the flag
  \<open>m\<close>, \<open>TextStart\<close> is \<open>^\<close> without it.
\<close>

type_synonym pos = "string \<times> string"

datatype regex =
    Chr "char \<Rightarrow> bool"
  | Seq regex regex
  | Alt regex regex
  | Opt regex
  | Star regex
  | Lazy regex
  | LineStart
  | TextStart
  | Ahead regex
  | Behind "char \<Rightarrow> bool"

abbreviation CR :: char where
  "CR \<equiv> CHR 0x0D"

fun m :: "regex \<Rightarrow> pos \<Rightarrow> pos list" where
  "m (Chr P) p = (case snd p of [] \<Rightarrow> [] | c # a \<Rightarrow> if P c then [(c # fst p, a)] else [])"
| "m (Seq r1 r2) p = concat (map (m r2) (m r1 p))"
| "m (Alt r1 r2) p = m r1 p @ m r2 p"
| "m (Opt r) p = m r p @ [p]"
| "m (Star r) p =
     concat (map (m (Star r)) (filter (\<lambda>p'. length (snd p') < length (snd p)) (m r p))) @ [p]"
| "m (Lazy r) p =
     p # concat (map (m (Lazy r)) (filter (\<lambda>p'. length (snd p') < length (snd p)) (m r p)))"
| "m LineStart p = (case fst p of [] \<Rightarrow> [p] | c # b \<Rightarrow> if c = LF \<or> c = CR then [p] else [])"
| "m TextStart p = (case fst p of [] \<Rightarrow> [p] | c # b \<Rightarrow> [])"
| "m (Ahead r) p = (if m r p = [] then [] else [p])"
| "m (Behind P) p = (case fst p of [] \<Rightarrow> [] | c # b \<Rightarrow> if P c then [p] else [])"

declare m.simps(5,6) [simp del]

text \<open>\<open>r+\<close>, \<open>r+?\<close> and a single character.\<close>

definition plus :: "regex \<Rightarrow> regex" where
  "plus r = Seq r (Star r)"

definition lazy_plus :: "regex \<Rightarrow> regex" where
  "lazy_plus r = Seq r (Lazy r)"

definition lit :: "char \<Rightarrow> regex" where
  "lit c = Chr (\<lambda>x. x = c)"

fun seqs :: "regex \<Rightarrow> regex list \<Rightarrow> regex" where
  "seqs r [] = r"
| "seqs r (x # xs) = Seq r (seqs x xs)"

text \<open>A match only moves forward in the text.\<close>

lemma m_forward:
  "p' \<in> set (m r p) \<Longrightarrow> \<exists>ys. snd p = ys @ snd p' \<and> fst p' = rev ys @ fst p"
proof (induction r p arbitrary: p' rule: m.induct)
  case (1 P p)
  then show ?case by (cases p) (auto split: list.splits if_splits)
next
  case (2 r1 r2 p)
  then obtain p1 where p1: "p1 \<in> set (m r1 p)" and p': "p' \<in> set (m r2 p1)" by auto
  from "2.IH"(1)[OF p1] obtain ys where ys: "snd p = ys @ snd p1" "fst p1 = rev ys @ fst p"
    by blast
  from "2.IH"(2)[OF p1 p'] obtain zs where zs: "snd p1 = zs @ snd p'" "fst p' = rev zs @ fst p1"
    by blast
  show ?case by (rule exI[of _ "ys @ zs"]) (simp add: ys zs)
next
  case (3 r1 r2 p)
  then show ?case by auto
next
  case (4 r p)
  then show ?case by auto
next
  case (5 r p)
  from "5.prems" consider "p' = p"
    | p1 where "p1 \<in> set (m r p)" "length (snd p1) < length (snd p)" "p' \<in> set (m (Star r) p1)"
    by (subst (asm) m.simps) auto
  then show ?case
  proof cases
    case 1
    then show ?thesis by simp
  next
    case 2
    from "5.IH"(1)[OF 2(1)] obtain ys where ys: "snd p = ys @ snd p1" "fst p1 = rev ys @ fst p"
      by blast
    from "5.IH"(2)[of p1 p'] 2 obtain zs where zs: "snd p1 = zs @ snd p'" "fst p' = rev zs @ fst p1"
      by auto
    show ?thesis by (rule exI[of _ "ys @ zs"]) (simp add: ys zs)
  qed
next
  case (6 r p)
  from "6.prems" consider "p' = p"
    | p1 where "p1 \<in> set (m r p)" "length (snd p1) < length (snd p)" "p' \<in> set (m (Lazy r) p1)"
    by (subst (asm) m.simps) auto
  then show ?case
  proof cases
    case 1
    then show ?thesis by simp
  next
    case 2
    from "6.IH"(1)[OF 2(1)] obtain ys where ys: "snd p = ys @ snd p1" "fst p1 = rev ys @ fst p"
      by blast
    from "6.IH"(2)[of p1 p'] 2 obtain zs where zs: "snd p1 = zs @ snd p'" "fst p' = rev zs @ fst p1"
      by auto
    show ?thesis by (rule exI[of _ "ys @ zs"]) (simp add: ys zs)
  qed
next
  case (7 p)
  then show ?case by (auto split: list.splits if_splits)
next
  case (8 p)
  then show ?case by (auto split: list.splits if_splits)
next
  case (9 r p)
  then show ?case by (auto split: if_splits)
next
  case (10 P p)
  then show ?case by (auto split: list.splits if_splits)
qed

lemma m_length: "p' \<in> set (m r p) \<Longrightarrow> length (snd p') \<le> length (snd p)"
  by (drule m_forward) auto

text \<open>
  \<open>find_from r b a\<close> is one \<open>exec\<close>: the first position at or after \<open>(b, a)\<close> where \<open>r\<close>
  matches, with the end of the match that backtracking finds first.
\<close>

fun find_from :: "regex \<Rightarrow> string \<Rightarrow> string \<Rightarrow> (pos \<times> pos) option" where
  "find_from r b [] = (case m r (b, []) of [] \<Rightarrow> None | e # _ \<Rightarrow> Some ((b, []), e))"
| "find_from r b (c # a) =
     (case m r (b, c # a) of [] \<Rightarrow> find_from r (c # b) a | e # _ \<Rightarrow> Some ((b, c # a), e))"

lemma find_from_start:
  "find_from r b a = Some (s, e) \<Longrightarrow> length (snd s) \<le> length a"
  by (induction r b a rule: find_from.induct) (auto split: list.splits)

text \<open>
  All matches of a global regular expression, left to right (\<open>matchAll\<close>, or \<open>exec\<close> in a
  loop): the search resumes where the match ended, one character further after an empty
  match.
\<close>

function match_all :: "regex \<Rightarrow> pos \<Rightarrow> (pos \<times> pos) list" where
  "match_all r p =
     (case find_from r (fst p) (snd p) of
        None \<Rightarrow> []
      | Some (s, e) \<Rightarrow>
          (s, e) #
          (if length (snd e) < length (snd s) then match_all r e
           else (case snd s of [] \<Rightarrow> [] | c # a \<Rightarrow> match_all r (c # fst s, a))))"
  by pat_completeness auto
termination
proof (relation "measure (\<lambda>(r, p). length (snd p))")
  show "wf (measure (\<lambda>(r, p). length (snd p)))" by simp
next
  fix r :: regex and p :: pos and x2 and s e :: pos
  assume "find_from r (fst p) (snd p) = Some x2" "(s, e) = x2" "length (snd e) < length (snd s)"
  then show "((r, e), (r, p)) \<in> measure (\<lambda>(r, p). length (snd p))"
    using find_from_start[of r "fst p" "snd p" s e] by simp
next
  fix r :: regex and p :: pos and x2 and s e :: pos and c a
  assume "find_from r (fst p) (snd p) = Some x2" "(s, e) = x2" "snd s = c # a"
  then show "((r, c # fst s, a), (r, p)) \<in> measure (\<lambda>(r, p). length (snd p))"
    using find_from_start[of r "fst p" "snd p" s e] by simp
qed

declare match_all.simps [simp del]

definition match_text :: "pos \<times> pos \<Rightarrow> string" where
  "match_text se = take (length (snd (fst se)) - length (snd (snd se))) (snd (fst se))"

definition match_index :: "pos \<times> pos \<Rightarrow> nat" where
  "match_index se = length (fst (fst se))"

text \<open>
  \<open>s.split(r)\<close> for a regular expression without capturing groups: \<open>p\<close> is where the
  current piece starts and \<open>q\<close> where a separator is tried next; a separator must match at
  \<open>q\<close> itself and must not end where the piece starts.
\<close>

function split_loop :: "regex \<Rightarrow> pos \<Rightarrow> pos \<Rightarrow> string list" where
  "split_loop r p q =
     (case snd q of
        [] \<Rightarrow> [snd p]
      | c # a \<Rightarrow>
          (case m r q of
             [] \<Rightarrow> split_loop r p (c # fst q, a)
           | e # _ \<Rightarrow>
               if length (snd e) = length (snd p) then split_loop r p (c # fst q, a)
               else take (length (snd p) - length (snd q)) (snd p) # split_loop r e e))"
  by pat_completeness auto
termination
proof (relation "measure (\<lambda>(r, p, q). 2 * length (snd q) +
          (if length (snd p) = length (snd q) then 0 else 1))")
  show "wf (measure (\<lambda>(r, p, q). 2 * length (snd q) +
          (if length (snd p) = length (snd q) then 0 else 1)))" by simp
next
  fix r :: regex and p q :: pos and c a
  assume "snd q = c # a"
  then show "((r, p, c # fst q, a), (r, p, q)) \<in> measure (\<lambda>(r, p, q). 2 * length (snd q) +
          (if length (snd p) = length (snd q) then 0 else 1))" by simp
next
  fix r :: regex and p q :: pos and c a and e :: pos and es :: "pos list"
  assume "snd q = c # a"
  then show "((r, p, c # fst q, a), (r, p, q)) \<in> measure (\<lambda>(r, p, q). 2 * length (snd q) +
          (if length (snd p) = length (snd q) then 0 else 1))" by simp
next
  fix r :: regex and p q :: pos and c a and e :: pos and es :: "pos list"
  assume a: "m r q = e # es" "length (snd e) \<noteq> length (snd p)"
  have "length (snd e) \<le> length (snd q)" using m_length[of e r q] a(1) by simp
  then show "((r, e, e), (r, p, q)) \<in> measure (\<lambda>(r, p, q). 2 * length (snd q) +
          (if length (snd p) = length (snd q) then 0 else 1))"
    using a(2) by auto
qed

declare split_loop.simps [simp del]

definition split_regex :: "regex \<Rightarrow> string \<Rightarrow> string list" where
  "split_regex r s =
     (if s = [] then (if m r ([], []) = [] then [[]] else [])
      else split_loop r ([], s) ([], s))"

section \<open>Data model\<close>

datatype grade_level = High | Medium | Low

record RelevanceGrade =
  relevant :: bool
  score :: grade_level
  reason :: string

record Chunk =
  header :: string
  content :: string
  charCount :: "nat option"
  containsTable :: "bool option"

record TaggedChunk = Chunk +
  chunkId :: nat
  tags :: "string list"

record SearchResult =
  chunkId_r :: string
  score_r :: jsnum
  header_r :: string
  content_r :: string
  tags_r :: "string list"
  relevanceGrade :: "RelevanceGrade option"

record CorrectiveRAGResult =
  query :: string
  finalQuery :: string
  iterations :: nat
  relevantChunks :: "SearchResult list"
  totalFound :: nat

record GroqConfig =
  apiKey :: string
  model :: string
  temperature :: jsnum
  maxTokens :: "nat option"

record ChunkingConfig =
  minChunkSize :: nat
  maxChunkSize :: nat
  overlap :: nat

text \<open>
  What the code throws: the dimension check of \<open>cosineSimilarity\<close>, and the
  \<open>TypeError\<close> of reading a field of \<open>undefined\<close>.
\<close>

datatype error = VectorsMustHaveSameLength | TypeError

section \<open>Segmentation engine (chunking.ts)\<close>

lemma split_loop_shorter:
  "length (snd q) \<le> length (snd p) \<Longrightarrow>
   split_loop r p q = [snd p] \<or> (\<forall>x \<in> set (split_loop r p q). length x < length (snd p))"
proof (induction r p q rule: split_loop.induct)
  case (1 r p q)
  show ?case
  proof (cases "snd q")
    case Nil
    then show ?thesis by (subst split_loop.simps) simp
  next
    case (Cons c a)
    show ?thesis
    proof (cases "m r q")
      case Nil
      have "split_loop r p q = split_loop r p (c # fst q, a)"
        using Cons Nil by (subst split_loop.simps) simp
      moreover have "split_loop r p (c # fst q, a) = [snd p] \<or>
          (\<forall>x \<in> set (split_loop r p (c # fst q, a)). length x < length (snd p))"
        using "1.IH"(1)[OF Cons Nil] "1.prems" Cons by simp
      ultimately show ?thesis by simp
    next
      case (Cons e es)
      note me = Cons
      show ?thesis
      proof (cases "length (snd e) = length (snd p)")
        case True
        have "split_loop r p q = split_loop r p (c # fst q, a)"
          using \<open>snd q = c # a\<close> me True by (subst split_loop.simps) simp
        moreover have "split_loop r p (c # fst q, a) = [snd p] \<or>
            (\<forall>x \<in> set (split_loop r p (c # fst q, a)). length x < length (snd p))"
          using "1.IH"(2)[OF \<open>snd q = c # a\<close> me True] "1.prems" \<open>snd q = c # a\<close> by simp
        ultimately show ?thesis by simp
      next
        case False
        have eq: "split_loop r p q =
            take (length (snd p) - length (snd q)) (snd p) # split_loop r e e"
          using \<open>snd q = c # a\<close> me False by (subst split_loop.simps) simp
        have le: "length (snd e) \<le> length (snd q)" using m_length[of e r q] me by simp
        then have lt: "length (snd e) < length (snd p)" using "1.prems" False by simp
        have "split_loop r e e = [snd e] \<or>
            (\<forall>x \<in> set (split_loop r e e). length x < length (snd e))"
          using "1.IH"(3)[OF \<open>snd q = c # a\<close> me False] by simp
        then have "\<forall>x \<in> set (split_loop r e e). length x < length (snd p)"
          using lt by auto
        moreover have "length (take (length (snd p) - length (snd q)) (snd p)) < length (snd p)"
          using "1.prems" \<open>snd q = c # a\<close> by simp
        ultimately show ?thesis using eq by simp
      qed
    qed
  qed
qed

lemma split_regex_shorter:
  "1 < length (split_regex r s) \<Longrightarrow> x \<in> set (split_regex r s) \<Longrightarrow> length x < length s"
proof -
  assume a: "1 < length (split_regex r s)" "x \<in> set (split_regex r s)"
  then have ne: "s \<noteq> []" by (auto simp: split_regex_def split: if_splits)
  then have eq: "split_regex r s = split_loop r ([], s) ([], s)" by (simp add: split_regex_def)
  from split_loop_shorter[of "([], s)" "([], s)" r] a eq show ?thesis by auto
qed


definition para_sep :: regex where
  "para_sep = Seq (lit LF) (plus (lit LF))"

definition sentence_sep :: regex where
  "sentence_sep = Seq (Behind (\<lambda>c. c = CHR ''.'' \<or> c = CHR ''!'' \<or> c = CHR ''?'')) (plus (Chr is_space))"

definition word_sep :: regex where
  "word_sep = plus (Chr is_space)"

definition overlapText :: "nat \<Rightarrow> string \<Rightarrow> string" where
  "overlapText ovl currentChunk =
     (if ovl < length currentChunk
      then (if ovl = 0 then currentChunk else drop (length currentChunk - ovl) currentChunk)
      else currentChunk)"

function recursiveChunkWithOverlap :: "string \<Rightarrow> nat \<Rightarrow> nat \<Rightarrow> string list" where
  "recursiveChunkWithOverlap text maxSize ovl =
     (if length text \<le> maxSize then [text]
      else if 1 < length (split_regex para_sep text) then
        (case fold
           (\<lambda>para (pieces, currentChunk).
              if length currentChunk + length para + 2 \<le> maxSize
              then (pieces, currentChunk @ (if currentChunk \<noteq> [] then [LF, LF] else []) @ para)
              else if currentChunk \<noteq> []
              then (pieces @ [currentChunk], overlapText ovl currentChunk @ [LF, LF] @ para)
              else (let subChunks = recursiveChunkWithOverlap para maxSize ovl
                    in (pieces @ butlast subChunks,
                        if subChunks = [] then [] else last subChunks)))
           (split_regex para_sep text) ([], []) of
           (pieces, currentChunk) \<Rightarrow> pieces @ (if currentChunk \<noteq> [] then [currentChunk] else []))
      else if 1 < length (split_regex sentence_sep text) then
        (case fold
           (\<lambda>sent (pieces, currentChunk).
              if length currentChunk + length sent + 1 \<le> maxSize
              then (pieces, currentChunk @ (if currentChunk \<noteq> [] then '' '' else []) @ sent)
              else if currentChunk \<noteq> []
              then (pieces @ [currentChunk], overlapText ovl currentChunk @ '' '' @ sent)
              else (let subChunks = recursiveChunkWithOverlap sent maxSize ovl
                    in (pieces @ butlast subChunks,
                        if subChunks = [] then [] else last subChunks)))
           (split_regex sentence_sep text) ([], []) of
           (pieces, currentChunk) \<Rightarrow> pieces @ (if currentChunk \<noteq> [] then [currentChunk] else []))
      else
        (case fold
           (\<lambda>word (pieces, currentChunk).
              if length currentChunk + length word + 1 \<le> maxSize
              then (pieces, currentChunk @ (if currentChunk \<noteq> [] then '' '' else []) @ word)
              else if currentChunk \<noteq> []
              then (pieces @ [currentChunk], overlapText ovl currentChunk @ '' '' @ word)
              else (pieces @ [take maxSize word], drop maxSize word))
           (split_regex word_sep text) ([], []) of
           (pieces, currentChunk) \<Rightarrow> pieces @ (if currentChunk \<noteq> [] then [currentChunk] else [])))"
  by pat_completeness auto
termination
  by (relation "measure (\<lambda>(text, maxSize, ovl). length text)")
     (auto simp: split_regex_shorter)

declare recursiveChunkWithOverlap.simps [simp del]

text \<open>
  The table pattern
  \<^verbatim>\<open>/(\|[^\n]+\|[\n\r]+\|[-:\s|]+\|[\n\r]+(?:\|[^\n]+\|[\n\r]+)*)/g\<close>:
  a row, the separator row, then any number of rows.
\<close>

definition table_row :: regex where
  "table_row =
     seqs (lit CHR ''|'') [plus (Chr (\<lambda>c. c \<noteq> LF)), lit CHR ''|'',
                          plus (Chr (\<lambda>c. c = LF \<or> c = CR))]"

definition tablePattern :: regex where
  "tablePattern =
     seqs table_row
       [lit CHR ''|'',
        plus (Chr (\<lambda>c. c = CHR ''-'' \<or> c = CHR '':'' \<or> is_space c \<or> c = CHR ''|'')),
        lit CHR ''|'', plus (Chr (\<lambda>c. c = LF \<or> c = CR)),
        Star table_row]"

definition extractTables :: "string \<Rightarrow> (string \<times> nat \<times> nat) list" where
  "extractTables markdownText =
     map (\<lambda>mt. (match_text mt, match_index mt, match_index mt + length (match_text mt)))
       (match_all tablePattern ([], markdownText))"

text \<open>
  The section pattern \<^verbatim>\<open>/(^#{1,3}\s+.+?)(?=\n#{1,3}\s+|\Z)/gms\<close>. Under the flag \<open>s\<close> the
  dot matches every character. \<^verbatim>\<open>\Z\<close> is no anchor in JavaScript: without the flag
  \<open>u\<close> it is the letter \<open>Z\<close>.
\<close>

definition hashes :: regex where
  "hashes = Seq (lit CHR ''#'') (Opt (Seq (lit CHR ''#'') (Opt (lit CHR ''#''))))"

definition headerPattern :: regex where
  "headerPattern =
     seqs LineStart
       [hashes, plus (Chr is_space), lazy_plus (Chr (\<lambda>c. True)),
        Ahead (Alt (seqs (lit LF) [hashes, plus (Chr is_space)]) (lit CHR ''Z''))]"

text \<open>
  \<^verbatim>\<open>chunkText.match(/^(#{1,3}\s+)(.+)/)\<close>: the second group of the first way to match,
  trimmed, or \<open>'Unknown'\<close>; without the flag \<open>s\<close> the dot stops at a line end.
\<close>

definition header_of :: "string \<Rightarrow> string" where
  "header_of chunkText =
     (case concat
        (map (\<lambda>p1. map (\<lambda>e. take (length (snd p1) - length (snd e)) (snd p1))
                       (m (plus (Chr (\<lambda>c. c \<noteq> LF \<and> c \<noteq> CR))) p1))
             (m (seqs TextStart [hashes, plus (Chr is_space)]) ([], chunkText))) of
        [] \<Rightarrow> ''Unknown''
      | g # _ \<Rightarrow> trim g)"

definition splitLargeChunk :: "string \<Rightarrow> string \<Rightarrow> nat \<Rightarrow> nat \<Rightarrow> Chunk list" where
  "splitLargeChunk chunkContent hdr maxSize ovl =
     (let splitTexts = recursiveChunkWithOverlap chunkContent maxSize ovl
      in map (\<lambda>(text, index).
                \<lparr>header = (if 1 < length splitTexts
                            then hdr @ '' (Part '' @ show_nat (index + 1) @ '')'' else hdr),
                 content = trim text, charCount = Some (length (trim text)),
                 containsTable = Some False\<rparr>)
             (zip splitTexts [0 ..< length splitTexts]))"

definition raw_chunk :: "(nat \<times> nat) list \<Rightarrow> pos \<times> pos \<Rightarrow> Chunk list" where
  "raw_chunk tableRanges mt =
     (let chunkText = trim (match_text mt)
      in if chunkText = [] then []
         else (let chunkStart = match_index mt;
                   chunkEnd = chunkStart + length chunkText
               in [\<lparr>header = header_of chunkText, content = chunkText,
                    charCount = Some (length chunkText),
                    containsTable = Some (list_ex (\<lambda>(start, end).
                        (chunkStart \<le> start \<and> start < chunkEnd) \<or>
                        (chunkStart < end \<and> end \<le> chunkEnd)) tableRanges)\<rparr>]))"

text \<open>The inner \<open>while\<close> that absorbs the following sections into a small one.\<close>

fun combine :: "nat \<Rightarrow> string \<Rightarrow> string \<Rightarrow> Chunk list \<Rightarrow> string \<times> string \<times> Chunk list" where
  "combine minSize combinedContent combinedHeader [] = (combinedContent, combinedHeader, [])"
| "combine minSize combinedContent combinedHeader (c # cs) =
     (if length combinedContent < minSize then
        (if containsTable c = Some True then (combinedContent, combinedHeader, c # cs)
         else combine minSize (combinedContent @ [LF, LF] @ content c)
                (combinedHeader @ '' + '' @ header c) cs)
      else (combinedContent, combinedHeader, c # cs))"

lemma combine_rest: "length (snd (snd (combine n cc ch cs))) \<le> length cs"
  by (induction cs arbitrary: cc ch) (auto simp: le_SucI)

lemma combine_rest_eq:
  "(cc', ch', rest') = combine n cc ch cs \<Longrightarrow> length rest' < Suc (length cs)"
  using combine_rest[of n cc ch cs] by (metis le_imp_less_Suc snd_conv)

text \<open>The outer \<open>while (i < rawChunks.length)\<close>, on the raw chunks from \<open>i\<close> on.\<close>

function process :: "ChunkingConfig \<Rightarrow> Chunk list \<Rightarrow> Chunk list" where
  "process config [] = []"
| "process config (current # rest) =
     (if containsTable current = Some True then current # process config rest
      else if (case charCount current of None \<Rightarrow> False | Some n \<Rightarrow> n < minChunkSize config) then
        (case combine (minChunkSize config) (content current) (header current) rest of
           (combinedContent, combinedHeader, rest') \<Rightarrow>
             (if maxChunkSize config < length combinedContent
              then splitLargeChunk combinedContent combinedHeader (maxChunkSize config)
                     (overlap config)
              else [\<lparr>header = combinedHeader, content = combinedContent,
                     charCount = Some (length combinedContent), containsTable = Some False\<rparr>])
             @ process config rest')
      else if (case charCount current of None \<Rightarrow> False | Some n \<Rightarrow> maxChunkSize config < n) then
        splitLargeChunk (content current) (header current) (maxChunkSize config) (overlap config)
        @ process config rest
      else current # process config rest)"
  by pat_completeness auto
termination
  by (relation "measure (\<lambda>(config, cs). length cs)") (auto dest!: combine_rest_eq)

declare process.simps [simp del]

definition chunkDocument :: "string \<Rightarrow> ChunkingConfig \<Rightarrow> Chunk list" where
  "chunkDocument markdownText config =
     (if trim markdownText = [] then []
      else
        (let tables = extractTables markdownText;
             tableRanges = map (\<lambda>(c, start, end). (start, end)) tables;
             matches = match_all headerPattern ([], markdownText)
         in if matches = [] then
              (let chunkTexts = recursiveChunkWithOverlap markdownText (maxChunkSize config)
                                  (overlap config)
               in map (\<lambda>(text, index).
                         \<lparr>header = ''Chunk '' @ show_nat (index + 1), content = text,
                          charCount = Some (length text), containsTable = Some False\<rparr>)
                      (zip chunkTexts [0 ..< length chunkTexts]))
            else process config (concat (map (raw_chunk tableRanges) matches))))"


section \<open>Embedding index (vectorStore.ts)\<close>

text \<open>
  Helpers for code that may throw inside a loop: \<open>collect\<close> runs the body on every element
  in order, keeps the values pushed and stops at the first error.
\<close>

fun collect :: "('a \<Rightarrow> error + 'b option) \<Rightarrow> 'a list \<Rightarrow> error + 'b list" where
  "collect f [] = Inr []"
| "collect f (x # xs) =
     (case f x of
        Inl e \<Rightarrow> Inl e
      | Inr v \<Rightarrow>
          (case collect f xs of
             Inl e \<Rightarrow> Inl e
           | Inr vs \<Rightarrow> Inr (case v of None \<Rightarrow> vs | Some y \<Rightarrow> y # vs)))"

text \<open>\<open>xs[i]\<close>: \<open>undefined\<close> out of range.\<close>

definition nth_opt :: "'a list \<Rightarrow> nat \<Rightarrow> 'a option" where
  "nth_opt xs i = (if i < length xs then Some (xs ! i) else None)"

text \<open>
  \<open>xs.sort(cmp)\<close> as the engine that runs the code (V8) performs it on an array of fewer
  than 64 elements. A comparator result of \<open>NaN\<close> counts as \<open>0\<close>. The run at the start of
  the array is taken first: its longest prefix that never descends, or its longest
  strictly descending prefix, reversed. Every further element is then put where a binary
  search over the sorted part places it, behind the elements it does not precede. For a
  comparator that is a consistent order the result is the stable sort, which the engine
  returns for an array of any length; from 64 elements on the engine merges several such
  runs, and the order it then gives under an inconsistent comparator (some score is
  \<open>NaN\<close> and another is not) is outside this model.
\<close>

text \<open>\<open>order < 0\<close> for \<open>order = cmp x y\<close>, false when the comparator returns \<open>NaN\<close>.\<close>

definition precedes :: "('a \<Rightarrow> 'a \<Rightarrow> jsnum) \<Rightarrow> 'a \<Rightarrow> 'a \<Rightarrow> bool" where
  "precedes cmp x y = js_gt (Fin 0) (cmp x y)"

text \<open>The binary search of the insertion: \<open>pivot\<close> belongs at the position returned.\<close>

function insertion_point ::
  "('a \<Rightarrow> 'a \<Rightarrow> jsnum) \<Rightarrow> 'a \<Rightarrow> 'a list \<Rightarrow> nat \<Rightarrow> nat \<Rightarrow> nat" where
  "insertion_point cmp pivot xs left right =
     (if left < right then
        (let mid = left + (right - left) div 2
         in if precedes cmp pivot (xs ! mid) then insertion_point cmp pivot xs left mid
            else insertion_point cmp pivot xs (mid + 1) right)
      else left)"
  by pat_completeness auto
termination
  by (relation "measure (\<lambda>(cmp, pivot, xs, left, right). right - left)") auto

declare insertion_point.simps [simp del]

fun binary_insertion :: "('a \<Rightarrow> 'a \<Rightarrow> jsnum) \<Rightarrow> 'a list \<Rightarrow> 'a list \<Rightarrow> 'a list" where
  "binary_insertion cmp run [] = run"
| "binary_insertion cmp run (pivot # rest) =
     (let left = insertion_point cmp pivot run 0 (length run)
      in binary_insertion cmp (take left run @ pivot # drop left run) rest)"

text \<open>
  The number of elements after the second that continue the run, each compared with the
  one before it.
\<close>

fun run_rest :: "('a \<Rightarrow> 'a \<Rightarrow> jsnum) \<Rightarrow> bool \<Rightarrow> 'a \<Rightarrow> 'a list \<Rightarrow> nat" where
  "run_rest cmp isDescending previousElement [] = 0"
| "run_rest cmp isDescending previousElement (currentElement # rest) =
     (if precedes cmp currentElement previousElement = isDescending
      then Suc (run_rest cmp isDescending currentElement rest) else 0)"

definition js_sort :: "('a \<Rightarrow> 'a \<Rightarrow> jsnum) \<Rightarrow> 'a list \<Rightarrow> 'a list" where
  "js_sort cmp xs =
     (case xs of
        elementHigh # elementLow # rest \<Rightarrow>
          (let isDescending = precedes cmp elementLow elementHigh;
               runLength = 2 + run_rest cmp isDescending elementLow rest;
               run = (if isDescending then rev (take runLength xs) else take runLength xs)
           in binary_insertion cmp run (drop runLength xs))
      | _ \<Rightarrow> xs)"

text \<open>A value used as a condition: the empty string is falsy, like \<open>undefined\<close>.\<close>

definition truthy :: "string option \<Rightarrow> bool" where
  "truthy s = (case s of None \<Rightarrow> False | Some t \<Rightarrow> t \<noteq> [])"

definition cosineSimilarity :: "jsnum list \<Rightarrow> jsnum list \<Rightarrow> error + jsnum" where
  "cosineSimilarity vec1 vec2 =
     (if length vec1 \<noteq> length vec2 then Inl VectorsMustHaveSameLength
      else
        (let dotProduct = foldl (\<lambda>s (x, y). js_add s (js_mul x y)) (Fin 0) (zip vec1 vec2);
             norm1 = foldl (\<lambda>s (x, y). js_add s (js_mul x x)) (Fin 0) (zip vec1 vec2);
             norm2 = foldl (\<lambda>s (x, y). js_add s (js_mul y y)) (Fin 0) (zip vec1 vec2)
         in Inr (js_div dotProduct (js_mul (js_sqrt norm1) (js_sqrt norm2)))))"

definition generateSimpleEmbedding :: "string \<Rightarrow> jsnum list" where
  "generateSimpleEmbedding text =
     (let normalized = toLowerCase text;
          embedding = foldl (\<lambda>e c. e[of_char c mod 300 := js_add (e ! (of_char c mod 300)) (Fin 1)])
                        (replicate 300 (Fin 0)) normalized;
          magnitude = js_sqrt (foldl (\<lambda>sum val. js_add sum (js_mul val val)) (Fin 0) embedding)
      in map (\<lambda>val. js_div val magnitude) embedding)"

record VectorStore =
  chunks :: "TaggedChunk list"
  embeddings :: "jsnum list list"

definition new_VectorStore :: VectorStore where
  "new_VectorStore = \<lparr>chunks = [], embeddings = []\<rparr>"

definition addChunks :: "VectorStore \<Rightarrow> TaggedChunk list \<Rightarrow> VectorStore" where
  "addChunks vs cs = \<lparr>chunks = cs, embeddings = map (\<lambda>c. generateSimpleEmbedding (content c)) cs\<rparr>"

definition result_of :: "TaggedChunk \<Rightarrow> string \<Rightarrow> jsnum \<Rightarrow> SearchResult" where
  "result_of chunk cid sc =
     \<lparr>chunkId_r = cid, score_r = sc, header_r = header chunk, content_r = content chunk,
      tags_r = tags chunk, relevanceGrade = None\<rparr>"

definition chunk_key :: "TaggedChunk \<Rightarrow> string" where
  "chunk_key chunk = ''chunk_'' @ show_nat (chunkId chunk)"

definition semanticSearch ::
  "VectorStore \<Rightarrow> string \<Rightarrow> nat \<Rightarrow> string option \<Rightarrow> error + SearchResult list" where
  "semanticSearch vs q topK tagFilter =
     (let queryEmbedding = generateSimpleEmbedding q
      in case collect
           (\<lambda>i. if truthy tagFilter \<and> nth_opt (chunks vs) i = None then Inl TypeError
                else if truthy tagFilter \<and> the tagFilter \<notin> set (tags (chunks vs ! i)) then Inr None
                else (case cosineSimilarity queryEmbedding (embeddings vs ! i) of
                        Inl e \<Rightarrow> Inl e
                      | Inr similarity \<Rightarrow> Inr (Some (i, similarity))))
           [0 ..< length (embeddings vs)] of
           Inl e \<Rightarrow> Inl e
         | Inr scores \<Rightarrow>
             collect
               (\<lambda>(index, sc). case nth_opt (chunks vs) index of
                    None \<Rightarrow> Inl TypeError
                  | Some chunk \<Rightarrow> Inr (Some (result_of chunk (chunk_key chunk) sc)))
               (take topK (js_sort (\<lambda>a b. js_sub (snd b) (snd a)) scores)))"

text \<open>
  \<open>parseInt(s)\<close> with no radix: leading white space, a sign, a \<open>0x\<close> prefix, then the
  longest run of digits; \<open>NaN\<close> when there is none.
\<close>

definition digit_val :: "char \<Rightarrow> nat" where
  "digit_val c =
     (let n = (of_char c :: nat)
      in if 48 \<le> n \<and> n \<le> 57 then n - 48
         else if 97 \<le> n \<and> n \<le> 122 then n - 87
         else if 65 \<le> n \<and> n \<le> 90 then n - 55
         else 36)"

definition parseInt :: "string \<Rightarrow> jsnum" where
  "parseInt s =
     (let s0 = dropWhile is_space s;
          neg = startsWith s0 ''-'';
          s1 = (if startsWith s0 ''-'' \<or> startsWith s0 ''+'' then drop 1 s0 else s0);
          hex = (startsWith s1 ''0x'' \<or> startsWith s1 ''0X'');
          R = (if hex then 16 else 10);
          s2 = (if hex then drop 2 s1 else s1);
          z = takeWhile (\<lambda>c. digit_val c < R) s2;
          v = foldl (\<lambda>a c. a * R + digit_val c) 0 z
      in if z = [] then NaN else Fin (if neg then - real v else real v))"

definition getChunkById :: "VectorStore \<Rightarrow> string \<Rightarrow> TaggedChunk option" where
  "getChunkById vs cid =
     (let id = parseInt (replace_first cid ''chunk_'' '''')
      in find (\<lambda>c. Fin (real (chunkId c)) = id) (chunks vs))"

definition getAllChunks :: "VectorStore \<Rightarrow> TaggedChunk list" where
  "getAllChunks vs = chunks vs"

section \<open>Lexical index and hybrid ranking (hybridSearch.ts)\<close>

record BM25 =
  documents :: "string list list"
  avgDocLength :: jsnum
  docLengths :: "nat list"
  idf :: "string \<rightharpoonup> jsnum"

definition k1 :: jsnum where
  "k1 = Fin (3 / 2)"

definition b_bm25 :: jsnum where
  "b_bm25 = Fin (3 / 4)"

definition new_BM25 :: BM25 where
  "new_BM25 = \<lparr>documents = [], avgDocLength = Fin 0, docLengths = [], idf = Map.empty\<rparr>"

definition is_word :: "char \<Rightarrow> bool" where
  "is_word c =
     (let n = (of_char c :: nat)
      in (48 \<le> n \<and> n \<le> 57) \<or> (65 \<le> n \<and> n \<le> 90) \<or> n = 95 \<or> (97 \<le> n \<and> n \<le> 122))"

definition tokenize :: "string \<Rightarrow> string list" where
  "tokenize text =
     filter (\<lambda>token. 0 < length token)
       (split_regex (plus (Chr is_space))
          (map (\<lambda>c. if is_word c \<or> is_space c then c else CHR '' '') (toLowerCase text)))"

text \<open>
  \<open>calculateIDF\<close>: the number of documents holding each term, then one entry per term
  seen; entries of an earlier \<open>initialize\<close> stay, since the map is never cleared.
\<close>

definition termDocCount :: "string list list \<Rightarrow> string \<rightharpoonup> nat" where
  "termDocCount docs =
     foldl (\<lambda>cnt doc. foldl (\<lambda>cnt' term. cnt'(term \<mapsto> (case cnt' term of None \<Rightarrow> 0 | Some n \<Rightarrow> n) + 1))
                         cnt (remdups doc))
           Map.empty docs"

definition calculateIDF :: "BM25 \<Rightarrow> BM25" where
  "calculateIDF bm =
     (let N = length (documents bm); cnt = termDocCount (documents bm)
      in bm\<lparr>idf := (\<lambda>term. case cnt term of
                None \<Rightarrow> idf bm term
              | Some docCount \<Rightarrow>
                  Some (js_log (js_add (js_div (js_add (js_sub (js_nat N) (js_nat docCount)) (Fin (1 / 2)))
                                               (js_add (js_nat docCount) (Fin (1 / 2))))
                                       (Fin 1))))\<rparr>)"

definition initialize_BM25 :: "BM25 \<Rightarrow> string list \<Rightarrow> BM25" where
  "initialize_BM25 bm docs =
     (let toks = map tokenize docs;
          lens = map length toks
      in calculateIDF (bm\<lparr>documents := toks, docLengths := lens,
           avgDocLength := js_div (foldl (\<lambda>a b. js_add a (js_nat b)) (Fin 0) lens)
                                  (js_nat (length lens))\<rparr>))"

definition calculateScore :: "BM25 \<Rightarrow> string list \<Rightarrow> nat \<Rightarrow> error + jsnum" where
  "calculateScore bm queryTerms docIndex =
     (case nth_opt (documents bm) docIndex of
        None \<Rightarrow> Inl TypeError
      | Some doc \<Rightarrow>
          (let docLength = (case nth_opt (docLengths bm) docIndex of None \<Rightarrow> NaN | Some l \<Rightarrow> js_nat l)
           in Inr (foldl
                (\<lambda>sc term.
                   (let tf = js_nat (length (filter (\<lambda>t. t = term) doc));
                        idf_t = or_zero (case idf bm term of None \<Rightarrow> NaN | Some v \<Rightarrow> v);
                        numerator = js_mul tf (js_add k1 (Fin 1));
                        denominator =
                          js_add tf (js_mul k1 (js_add (js_sub (Fin 1) b_bm25)
                             (js_mul b_bm25 (js_div docLength (avgDocLength bm)))))
                    in js_add sc (js_mul idf_t (js_div numerator denominator))))
                (Fin 0) queryTerms)))"

definition getScores :: "BM25 \<Rightarrow> string \<Rightarrow> error + jsnum list" where
  "getScores bm q =
     (let queryTerms = tokenize q
      in collect (\<lambda>index. case calculateScore bm queryTerms index of
                             Inl e \<Rightarrow> Inl e | Inr sc \<Rightarrow> Inr (Some sc))
           [0 ..< length (documents bm)])"

record HybridSearcher =
  vectorStore :: VectorStore
  bm25 :: BM25
  allDocuments :: "string list"

definition new_HybridSearcher :: "VectorStore \<Rightarrow> HybridSearcher" where
  "new_HybridSearcher vs = \<lparr>vectorStore = vs, bm25 = new_BM25, allDocuments = []\<rparr>"

definition initialize :: "HybridSearcher \<Rightarrow> HybridSearcher" where
  "initialize hs =
     (let docs = map content (getAllChunks (vectorStore hs))
      in hs\<lparr>allDocuments := docs, bm25 := initialize_BM25 (bm25 hs) docs\<rparr>)"

definition tag_matches :: "string option \<Rightarrow> TaggedChunk \<Rightarrow> bool" where
  "tag_matches tagFilter chunk = (if truthy tagFilter then the tagFilter \<in> set (tags chunk) else True)"

text \<open>
  \<open>search\<close> in three blocks, as the source comments divide it: the map of normalised
  semantic scores, the combined scores of the candidates, and the results built from the
  top chunks.
\<close>

definition semanticScoreMap :: "SearchResult list \<Rightarrow> string \<rightharpoonup> jsnum" where
  "semanticScoreMap semanticResults =
     (let semanticDistances = map score_r semanticResults;
          maxDist = (if 0 < length semanticDistances then Math_max semanticDistances else Fin 0)
      in foldl (\<lambda>mp r. mp(chunkId_r r \<mapsto>
                  (if js_gt maxDist (Fin 0) then js_div (score_r r) maxDist else Fin 0)))
               Map.empty semanticResults)"

definition candidateIndices :: "TaggedChunk list \<Rightarrow> string option \<Rightarrow> nat list" where
  "candidateIndices allChunks tagFilter =
     filter (\<lambda>idx. tag_matches tagFilter (allChunks ! idx)) [0 ..< length allChunks]"

definition combinedScores ::
  "TaggedChunk list \<Rightarrow> jsnum \<Rightarrow> string option \<Rightarrow> (string \<rightharpoonup> jsnum) \<Rightarrow> jsnum list
   \<Rightarrow> (string \<times> jsnum) list" where
  "combinedScores allChunks alpha tagFilter scoreMap bm25Scores =
     (let bm25_at = (\<lambda>i. or_zero (case nth_opt bm25Scores i of None \<Rightarrow> NaN | Some v \<Rightarrow> v));
          bm25Candidates = map bm25_at (candidateIndices allChunks tagFilter);
          maxBM25 = (if 0 < length bm25Candidates then Math_max bm25Candidates else Fin 0)
      in map (\<lambda>index.
                (let chunk = allChunks ! index;
                     cid = chunk_key chunk;
                     semScore = or_zero (case scoreMap cid of None \<Rightarrow> NaN | Some v \<Rightarrow> v);
                     bm25Score = (if js_gt maxBM25 (Fin 0) then js_div (bm25_at index) maxBM25
                                  else Fin 0)
                 in (cid, js_add (js_mul alpha semScore)
                                 (js_mul (js_sub (Fin 1) alpha) bm25Score))))
             (candidateIndices allChunks tagFilter))"

definition build_results :: "VectorStore \<Rightarrow> (string \<times> jsnum) list \<Rightarrow> error + SearchResult list" where
  "build_results vs topChunks =
     collect (\<lambda>(cid, sc). case getChunkById vs cid of
                  None \<Rightarrow> Inl TypeError
                | Some chunk \<Rightarrow> Inr (Some (result_of chunk cid sc)))
       topChunks"

definition search ::
  "HybridSearcher \<Rightarrow> string \<Rightarrow> nat \<Rightarrow> jsnum \<Rightarrow> string option \<Rightarrow> error + SearchResult list" where
  "search hs q topK alpha tagFilter =
     (case semanticSearch (vectorStore hs) q (topK * 2) tagFilter of
        Inl e \<Rightarrow> Inl e
      | Inr semanticResults \<Rightarrow>
          (case getScores (bm25 hs) q of
             Inl e \<Rightarrow> Inl e
           | Inr bm25Scores \<Rightarrow>
               build_results (vectorStore hs)
                 (take topK
                    (js_sort (\<lambda>a b. js_sub (snd b) (snd a))
                       (combinedScores (getAllChunks (vectorStore hs)) alpha tagFilter
                          (semanticScoreMap semanticResults) bm25Scores)))))"

section \<open>The language-model client\<close>

text \<open>
  \<open>groqClient.chat.completions.create\<close> is the only external call of the controller. It
  is a function of an outside world \<open>'w\<close>, which it may change: it either rejects
  (anything thrown inside the \<open>try\<close>) or completes with the content of the first choice,
  which may be absent.
\<close>

record request =
  model_rq :: string
  content_rq :: string
  temperature_rq :: jsnum
  max_tokens_rq :: nat

datatype completion = Rejected | Completed "string option"

type_synonym 'w client = "'w \<Rightarrow> request \<Rightarrow> completion \<times> 'w"

text \<open>A client that also records every request it receives, in order.\<close>

definition logged :: "'w client \<Rightarrow> ('w \<times> request list) client" where
  "logged create = (\<lambda>(w, trace) rq. case create w rq of (c, w') \<Rightarrow> (c, (w', trace @ [rq])))"

section \<open>Corrective retrieval (correctiveRAG.ts)\<close>

definition gradingPrompt :: "string \<Rightarrow> string \<Rightarrow> string" where
  "gradingPrompt chunkContent q =
     ''You are a grading expert. Is this chunk relevant to the query?'' @ [LF, LF] @
     ''Query: '' @ q @ [LF, LF] @
     ''Chunk:'' @ [LF] @
     take 1000 chunkContent @ [LF, LF] @
     ''Format:'' @ [LF] @
     ''RELEVANT: yes or no'' @ [LF] @
     ''SCORE: high, medium, or low'' @ [LF] @
     ''REASON: brief explanation (1 sentence)'' @ [LF]"

definition grading_request :: "GroqConfig \<Rightarrow> string \<Rightarrow> string \<Rightarrow> request" where
  "grading_request config chunkContent q =
     \<lparr>model_rq = model config, content_rq = gradingPrompt chunkContent q,
      temperature_rq = Fin (1 / 10), max_tokens_rq = 150\<rparr>"

text \<open>The loop over the lines of the reply, in the order of the \<open>if\<close> chain.\<close>

definition parse_line :: "string \<Rightarrow> RelevanceGrade \<Rightarrow> RelevanceGrade" where
  "parse_line line g =
     (if startsWith line ''RELEVANT:'' then g\<lparr>relevant := includes_str (toLowerCase line) ''yes''\<rparr>
      else if startsWith line ''SCORE:'' then
        (let scoreStr = toLowerCase (trim (replace_first line ''SCORE:'' ''''))
         in if scoreStr = ''high'' then g\<lparr>score := High\<rparr>
            else if scoreStr = ''medium'' then g\<lparr>score := Medium\<rparr>
            else if scoreStr = ''low'' then g\<lparr>score := Low\<rparr>
            else g)
      else if startsWith line ''REASON:'' then
        g\<lparr>reason := trim (replace_first line ''REASON:'' '''')\<rparr>
      else g)"

definition parse_grade :: "string \<Rightarrow> RelevanceGrade" where
  "parse_grade result =
     fold parse_line (split_lines result) \<lparr>relevant = False, score = Low, reason = ''Unknown''\<rparr>"

definition gradeChunkRelevance ::
  "'w client \<Rightarrow> 'w \<Rightarrow> string \<Rightarrow> string \<Rightarrow> GroqConfig \<Rightarrow> RelevanceGrade \<times> 'w" where
  "gradeChunkRelevance create w chunkContent q config =
     (case create w (grading_request config chunkContent q) of
        (Completed c, w') \<Rightarrow> (parse_grade (case c of None \<Rightarrow> [] | Some s \<Rightarrow> s), w')
      | (Rejected, w') \<Rightarrow>
          (\<lparr>relevant = True, score = Medium, reason = ''Error during grading''\<rparr>, w'))"

definition rewritePrompt :: "string \<Rightarrow> string option \<Rightarrow> string" where
  "rewritePrompt originalQuery feedback =
     (case feedback of
        Some (f # fs) \<Rightarrow>
          ''Original query failed to retrieve relevant results.'' @ [LF, LF] @
          ''Original: '' @ originalQuery @ [LF] @
          ''Feedback: '' @ (f # fs) @ [LF, LF] @
          ''Rewrite for better retrieval. Return only the rewritten query.''
      | _ \<Rightarrow>
          ''Improve this query for better retrieval:'' @ [LF, LF] @
          originalQuery @ [LF, LF] @
          ''Return only the improved query.'')"

definition rewrite_request :: "GroqConfig \<Rightarrow> string \<Rightarrow> string option \<Rightarrow> request" where
  "rewrite_request config originalQuery feedback =
     \<lparr>model_rq = model config, content_rq = rewritePrompt originalQuery feedback,
      temperature_rq = Fin (3 / 10), max_tokens_rq = 100\<rparr>"

definition rewriteQuery ::
  "'w client \<Rightarrow> 'w \<Rightarrow> string \<Rightarrow> GroqConfig \<Rightarrow> string option \<Rightarrow> string \<times> 'w" where
  "rewriteQuery create w originalQuery config feedback =
     (case create w (rewrite_request config originalQuery feedback) of
        (Completed c, w') \<Rightarrow>
          (case c of
             None \<Rightarrow> (originalQuery, w')
           | Some s \<Rightarrow> (if trim s = [] then originalQuery else trim s, w'))
      | (Rejected, w') \<Rightarrow> (originalQuery, w'))"

text \<open>
  The state of the retrieval loop: the three local variables of
  \<open>correctiveRAGRetrieval\<close> and the outside world.
\<close>

record 'w rag_state =
  currentQuery :: string
  iteration :: nat
  allRelevantChunks :: "SearchResult list"
  world :: 'w

definition accepted :: "RelevanceGrade \<Rightarrow> bool" where
  "accepted grade = (relevant grade \<and> (score grade = High \<or> score grade = Medium))"

text \<open>
  The GRADE step, \<open>for (const chunk of retrievedChunks)\<close>: every retrieved chunk is graded
  against the query \<open>q\<close> it is given, and an accepted one is pushed unless a chunk with
  the same id is there already.
\<close>

fun grade_chunks ::
  "'w client \<Rightarrow> GroqConfig \<Rightarrow> string \<Rightarrow> SearchResult list \<Rightarrow> SearchResult list \<Rightarrow> 'w
   \<Rightarrow> SearchResult list \<times> 'w" where
  "grade_chunks create config q [] acc w = (acc, w)"
| "grade_chunks create config q (chunk # rest) acc w =
     (case gradeChunkRelevance create w (content_r chunk) q config of
        (grade, w') \<Rightarrow>
          (let chunk' = chunk\<lparr>relevanceGrade := Some grade\<rparr>
           in if accepted grade \<and> \<not> list_ex (\<lambda>c. chunkId_r c = chunkId_r chunk') acc
              then grade_chunks create config q rest (acc @ [chunk']) w'
              else grade_chunks create config q rest acc w'))"

definition shortfall_feedback :: "nat \<Rightarrow> string" where
  "shortfall_feedback n =
     ''Only found '' @ show_nat n @ '' relevant chunks. Need more specific information.''"

text \<open>
  The \<open>while (iteration < maxIterations)\<close> loop. \<open>hsearch\<close> is
  \<open>hybridSearcher.search(_, topK, 0.5)\<close>; an error it throws leaves the function.
\<close>

function rag_loop ::
  "'w client \<Rightarrow> (string \<Rightarrow> nat \<Rightarrow> error + SearchResult list) \<Rightarrow> GroqConfig \<Rightarrow> string
   \<Rightarrow> nat \<Rightarrow> nat \<Rightarrow> 'w rag_state \<Rightarrow> error + 'w rag_state" where
  "rag_loop create hsearch config q maxIterations topK st =
     (if iteration st < maxIterations then
        (let st1 = st\<lparr>iteration := iteration st + 1\<rparr>
         in case hsearch (currentQuery st1) topK of
              Inl e \<Rightarrow> Inl e
            | Inr retrievedChunks \<Rightarrow>
                if retrievedChunks = [] then
                  (case rewriteQuery create (world st1) (currentQuery st1) config
                          (Some ''No results found'') of
                     (q', w') \<Rightarrow>
                       rag_loop create hsearch config q maxIterations topK
                         (st1\<lparr>currentQuery := q', world := w'\<rparr>))
                else
                  (case grade_chunks create config q retrievedChunks
                          (allRelevantChunks st1) (world st1) of
                     (acc, w') \<Rightarrow>
                       (let st2 = st1\<lparr>allRelevantChunks := acc, world := w'\<rparr>
                        in if 3 \<le> length acc then Inr st2
                           else if iteration st2 < maxIterations then
                             (case rewriteQuery create w' q config
                                     (Some (shortfall_feedback (length acc))) of
                                (q', w'') \<Rightarrow>
                                  rag_loop create hsearch config q maxIterations topK
                                    (st2\<lparr>currentQuery := q', world := w''\<rparr>))
                           else rag_loop create hsearch config q maxIterations topK st2)))
      else Inr st)"
  by pat_completeness auto
termination
  by (relation "measure (\<lambda>(create, hsearch, config, q, maxIterations, topK, st).
        maxIterations - iteration st)") auto

declare rag_loop.simps [simp del]

definition rag_finish ::
  "(string \<Rightarrow> nat \<Rightarrow> error + SearchResult list) \<Rightarrow> string \<Rightarrow> nat \<Rightarrow> 'w rag_state
   \<Rightarrow> error + (CorrectiveRAGResult \<times> 'w)" where
  "rag_finish hsearch q topK st =
     (case (if allRelevantChunks st = []
            then (case hsearch q topK of Inl e \<Rightarrow> Inl e | Inr fallbackResults \<Rightarrow> Inr fallbackResults)
            else Inr (allRelevantChunks st)) of
        Inl e \<Rightarrow> Inl e
      | Inr found \<Rightarrow>
          Inr (\<lparr>query = q, finalQuery = currentQuery st, iterations = iteration st,
                relevantChunks = found, totalFound = length found\<rparr>, world st))"

definition correctiveRAGRetrieval ::
  "'w client \<Rightarrow> string \<Rightarrow> (string \<Rightarrow> nat \<Rightarrow> error + SearchResult list) \<Rightarrow> GroqConfig
   \<Rightarrow> nat \<Rightarrow> nat \<Rightarrow> 'w \<Rightarrow> error + (CorrectiveRAGResult \<times> 'w)" where
  "correctiveRAGRetrieval create q hsearch config maxIterations topK w =
     (case rag_loop create hsearch config q maxIterations topK
             \<lparr>currentQuery = q, iteration = 0, allRelevantChunks = [], world = w\<rparr> of
        Inl e \<Rightarrow> Inl e
      | Inr st \<Rightarrow> rag_finish hsearch q topK st)"

text \<open>
  The \<open>search\<close> method of a \<open>HybridSearcher\<close> as the controller calls it, with
  \<open>alpha = 0.5\<close> and no tag filter.
\<close>

definition searcher_of :: "HybridSearcher \<Rightarrow> string \<Rightarrow> nat \<Rightarrow> error + SearchResult list" where
  "searcher_of hybridSearcher cq k = search hybridSearcher cq k (Fin (1 / 2)) None"

section \<open>Scripted collaborators for the worked examples\<close>

text \<open>
  Deterministic stand-ins for the language model and for a searcher, as the test suite
  scripts them: a grader that accepts everything, a client whose every call fails, and a
  searcher with three fixed hits.
\<close>

definition yes_reply :: string where
  "yes_reply = ''RELEVANT: yes'' @ [LF] @ ''SCORE: high'' @ [LF] @ ''REASON: on topic''"

definition yes_client :: "unit client" where
  "yes_client w rq = (Completed (Some yes_reply), w)"

definition failing_client :: "unit client" where
  "failing_client w rq = (Rejected, w)"

definition sample_result :: "nat \<Rightarrow> SearchResult" where
  "sample_result i =
     \<lparr>chunkId_r = ''chunk_'' @ show_nat i, score_r = Fin 1, header_r = ''Section'',
      content_r = ''text'', tags_r = [], relevanceGrade = None\<rparr>"

definition three_hits :: "string \<Rightarrow> nat \<Rightarrow> error + SearchResult list" where
  "three_hits q k = Inr (take k [sample_result 0, sample_result 1, sample_result 2])"

definition sample_config :: GroqConfig where
  "sample_config = \<lparr>apiKey = ''key'', model = ''llm'', temperature = Fin 0, maxTokens = None\<rparr>"

definition high_grade :: RelevanceGrade where
  "high_grade = \<lparr>relevant = True, score = High, reason = ''on topic''\<rparr>"

definition error_grade :: RelevanceGrade where
  "error_grade = \<lparr>relevant = True, score = Medium, reason = ''Error during grading''\<rparr>"

definition sample_chunk :: "nat \<Rightarrow> string list \<Rightarrow> TaggedChunk" where
  "sample_chunk i ts =
     \<lparr>header = ''Section'', content = ''some text'', charCount = Some 9,
      containsTable = Some False, chunkId = i, tags = ts\<rparr>"

definition sample_chunks :: "TaggedChunk list" where
  "sample_chunks = [sample_chunk 0 [''summary''], sample_chunk 1 [''findings'']]"

definition sample_searcher :: HybridSearcher where
  "sample_searcher = initialize (new_HybridSearcher (addChunks new_VectorStore sample_chunks))"

text \<open>
  A grader that rejects everything, and a client that replays a script, one reply per
  call, as \<open>mockResolvedValueOnce\<close> does; it fails once the script is used up.
\<close>

definition no_reply :: string where
  "no_reply = ''RELEVANT: no'' @ [LF] @ ''SCORE: low'' @ [LF] @ ''REASON: off topic''"


fun scripted_client :: "completion list client" where
  "scripted_client [] rq = (Rejected, [])"
| "scripted_client (reply # script) rq = (reply, script)"

text \<open>
  A run in which the query is rewritten: the searcher answers the rewritten query with
  another chunk than the original one, the grader rejects the first chunk, the rewriter
  returns the new query, and the grader accepts the second chunk. \<open>after_rewrite\<close> is the
  state of the loop at the start of the second iteration of that run.
\<close>

definition rewritten_hits :: "string \<Rightarrow> nat \<Rightarrow> error + SearchResult list" where
  "rewritten_hits cq k =
     Inr (if cq = ''which methods were used?''
          then [(sample_result 1)\<lparr>content_r := ''deep networks''\<rparr>]
          else [(sample_result 0)\<lparr>content_r := ''introduction''\<rparr>])"

definition rewrite_script :: "completion list" where
  "rewrite_script =
     [Completed (Some no_reply), Completed (Some ''which methods were used?''),
      Completed (Some yes_reply)]"

definition after_rewrite :: "(completion list \<times> request list) rag_state" where
  "after_rewrite =
     \<lparr>currentQuery = ''which methods were used?'', iteration = 1, allRelevantChunks = [],
      world = ([Completed (Some yes_reply)],
               [grading_request sample_config ''introduction'' ''what methods?'',
                rewrite_request sample_config ''what methods?'' (Some (shortfall_feedback 0))])\<rparr>"

text \<open>A store that holds two chunks with the same id.\<close>

definition twin_chunks :: "TaggedChunk list" where
  "twin_chunks = [sample_chunk 0 [''x''], sample_chunk 0 [''y'']]"

definition twin_searcher :: HybridSearcher where
  "twin_searcher = initialize (new_HybridSearcher (addChunks new_VectorStore twin_chunks))"


definition table_doc :: string where
  "table_doc = ''|a|b|'' @ [LF] @ ''|-|-|'' @ [LF] @ ''|c|d|'' @ [LF]"

definition tight_config :: ChunkingConfig where
  "tight_config = \<lparr>minChunkSize = 1, maxChunkSize = 8, overlap = 2\<rparr>"

definition sections_doc :: string where
  "sections_doc =
     ''# A'' @ [LF] @ ''short'' @ [LF, LF] @ ''# B'' @ [LF] @ ''short'' @ [LF, LF] @
     ''# C'' @ [LF] @ ''shortZ''"


section \<open>Properties of the retrieval controller\<close>

lemma parse_yes_reply: "parse_grade yes_reply = high_grade"
  by (simp add: yes_reply_def high_grade_def parse_grade_def parse_line_def startsWith_def
      toLowerCase_def lower_char_def trim_def is_space_def Let_def)

lemma parse_no_reply:
  "parse_grade no_reply = \<lparr>relevant = False, score = Low, reason = ''off topic''\<rparr>"
  by code_simp

lemma show_nat_small:
  "show_nat 0 = ''0''" "show_nat (Suc 0) = ''1''" "show_nat 1 = ''1''" "show_nat 2 = ''2''"
  by code_simp+

lemma grade_three_hits:
  "grade_chunks yes_client cfg q [sample_result 0, sample_result 1, sample_result 2] [] () =
     (map (\<lambda>i. (sample_result i)\<lparr>relevanceGrade := Some high_grade\<rparr>) [0, 1, 2], ())"
  by (simp add: gradeChunkRelevance_def yes_client_def parse_yes_reply accepted_def
      sample_result_def show_nat_small high_grade_def)

lemma rag_loop_iteration:
  "rag_loop create hsearch config q maxIt topK st = Inr st' \<Longrightarrow>
   iteration st' \<le> max maxIt (iteration st) \<and>
   (iteration st' < maxIt \<longrightarrow> 3 \<le> length (allRelevantChunks st'))"
proof (induction create hsearch config q maxIt topK st rule: rag_loop.induct)
  case (1 create hsearch config q maxIterations topK st)
  show ?case using "1.prems" "1.IH"
    apply (subst (asm) rag_loop.simps)
    apply (auto simp: Let_def split: if_splits sum.splits prod.splits)
    done
qed

lemma rag_loop_stop:
  assumes "iteration st < maxIterations" "hsearch (currentQuery st) topK = Inr rs" "rs \<noteq> []"
    "grade_chunks create config q rs (allRelevantChunks st) (world st) = (acc, w')"
    "3 \<le> length acc"
  shows "rag_loop create hsearch config q maxIterations topK st =
         Inr (st\<lparr>iteration := iteration st + 1, allRelevantChunks := acc, world := w'\<rparr>)"
  using assms by (subst rag_loop.simps) (simp add: Let_def)

text \<open>
  An invariant of the accepted set and the outside world that the GRADE step and a rewrite
  preserve holds when the loop returns; the GRADE step need only preserve it on what
  the searcher returns.
\<close>

lemma rag_loop_invariant_search:
  assumes run: "rag_loop create hsearch config q maxIt topK st = Inr st'"
    and init: "I (allRelevantChunks st) (world st)"
    and grade: "\<And>cq rs acc w acc' w'. hsearch cq topK = Inr rs \<Longrightarrow> I acc w \<Longrightarrow>
                  grade_chunks create config q rs acc w = (acc', w') \<Longrightarrow> I acc' w'"
    and rewrite: "\<And>oq fb acc w q' w'. I acc w \<Longrightarrow>
                  rewriteQuery create w oq config fb = (q', w') \<Longrightarrow> I acc w'"
  shows "I (allRelevantChunks st') (world st')"
  using run init
proof (induction "maxIt - iteration st" arbitrary: st)
  case 0
  then show ?case by (subst (asm) rag_loop.simps) simp
next
  case (Suc n)
  define st1 where "st1 = st\<lparr>iteration := iteration st + 1\<rparr>"
  have lt: "iteration st < maxIt" and n: "n = maxIt - iteration st1"
    using Suc.hyps(2) by (auto simp: st1_def)
  have step: "\<And>s. iteration s = iteration st1 \<Longrightarrow> I (allRelevantChunks s) (world s) \<Longrightarrow>
      rag_loop create hsearch config q maxIt topK s = Inr st' \<Longrightarrow>
      I (allRelevantChunks st') (world st')"
  proof -
    fix s assume a: "iteration s = iteration st1" "I (allRelevantChunks s) (world s)"
      "rag_loop create hsearch config q maxIt topK s = Inr st'"
    have "n = maxIt - iteration s" using n a(1) by simp
    from Suc.hyps(1)[OF this a(3) a(2)] show "I (allRelevantChunks st') (world st')" .
  qed
  show ?case
  proof (cases "hsearch (currentQuery st1) topK")
    case (Inl e)
    with Suc.prems(1) lt show ?thesis
      by (subst (asm) rag_loop.simps) (simp add: st1_def)
  next
    case (Inr rs)
    show ?thesis
    proof (cases "rs = []")
      case True
      obtain q' w' where rw: "rewriteQuery create (world st1) (currentQuery st1) config
          (Some ''No results found'') = (q', w')" by (meson surj_pair)
      have Iw: "I (allRelevantChunks st) w'"
        using rewrite[OF _ rw, of "allRelevantChunks st"] Suc.prems(2) by (simp add: st1_def)
      have run': "rag_loop create hsearch config q maxIt topK
            (st1\<lparr>currentQuery := q', world := w'\<rparr>) = Inr st'"
        using Suc.prems(1) lt Inr True rw
        by (subst (asm) rag_loop.simps) (simp add: st1_def)
      show ?thesis using step[OF _ _ run'] Iw by (simp add: st1_def)
    next
      case False
      obtain acc w' where gr: "grade_chunks create config q rs (allRelevantChunks st1)
          (world st1) = (acc, w')" by (meson surj_pair)
      have Iw: "I acc w'" using grade[OF Inr _ gr] Suc.prems(2) by (simp add: st1_def)
      define st2 where "st2 = st1\<lparr>allRelevantChunks := acc, world := w'\<rparr>"
      obtain q' w'' where rw: "rewriteQuery create w' q config
          (Some (shortfall_feedback (length acc))) = (q', w'')" by (meson surj_pair)
      have Iw': "I acc w''" using rewrite[OF Iw rw] .
      have cases: "(3 \<le> length acc \<and> st' = st2)
          \<or> rag_loop create hsearch config q maxIt topK
                (st2\<lparr>currentQuery := q', world := w''\<rparr>) = Inr st'
          \<or> rag_loop create hsearch config q maxIt topK st2 = Inr st'"
        using Suc.prems(1) lt Inr False gr rw
        by (subst (asm) rag_loop.simps) (auto simp: st1_def st2_def Let_def split: if_splits)
      then show ?thesis
        using step[of "st2\<lparr>currentQuery := q', world := w''\<rparr>"] step[of st2] Iw Iw'
        by (auto simp: st2_def)
    qed
  qed
qed

lemma rag_loop_invariant:
  assumes run: "rag_loop create hsearch config q maxIt topK st = Inr st'"
    and init: "I (allRelevantChunks st) (world st)"
    and grade: "\<And>rs acc w acc' w'. I acc w \<Longrightarrow>
                  grade_chunks create config q rs acc w = (acc', w') \<Longrightarrow> I acc' w'"
    and rewrite: "\<And>oq fb acc w q' w'. I acc w \<Longrightarrow>
                  rewriteQuery create w oq config fb = (q', w') \<Longrightarrow> I acc w'"
  shows "I (allRelevantChunks st') (world st')"
  by (rule rag_loop_invariant_search[OF run, where I = I]) (use init grade rewrite in blast)+

text \<open>The loop returns whenever the searcher does not throw.\<close>

lemma rag_loop_returns:
  assumes ok: "\<And>cq k. \<exists>rs. hsearch cq k = Inr rs"
  shows "\<exists>st'. rag_loop create hsearch config q maxIt topK st = Inr st'"
proof (induction "maxIt - iteration st" arbitrary: st)
  case 0
  then show ?case by (subst rag_loop.simps) simp
next
  case (Suc n)
  define st1 where "st1 = st\<lparr>iteration := iteration st + 1\<rparr>"
  have lt: "iteration st < maxIt" and n: "n = maxIt - iteration st1"
    using Suc.hyps(2) by (auto simp: st1_def)
  have step: "\<And>s. iteration s = iteration st1 \<Longrightarrow>
      \<exists>st'. rag_loop create hsearch config q maxIt topK s = Inr st'"
    using Suc.hyps(1) n by metis
  obtain rs where rs: "hsearch (currentQuery st1) topK = Inr rs" using ok by blast
  obtain q' w' where rw: "rewriteQuery create (world st1) (currentQuery st1) config
      (Some ''No results found'') = (q', w')" by (meson surj_pair)
  obtain acc w2 where gr: "grade_chunks create config q rs (allRelevantChunks st1)
      (world st1) = (acc, w2)" by (meson surj_pair)
  define st2 where "st2 = st1\<lparr>allRelevantChunks := acc, world := w2\<rparr>"
  obtain q2 w3 where rw2: "rewriteQuery create w2 q config
      (Some (shortfall_feedback (length acc))) = (q2, w3)" by (meson surj_pair)
  have "rag_loop create hsearch config q maxIt topK st =
      (if rs = [] then rag_loop create hsearch config q maxIt topK (st1\<lparr>currentQuery := q', world := w'\<rparr>)
       else if 3 \<le> length acc then Inr st2
       else if iteration st2 < maxIt
         then rag_loop create hsearch config q maxIt topK (st2\<lparr>currentQuery := q2, world := w3\<rparr>)
         else rag_loop create hsearch config q maxIt topK st2)"
    using lt rs rw gr rw2 unfolding st2_def st1_def
    by (subst rag_loop.simps) (simp add: Let_def)
  then show ?case
    using step[of "st1\<lparr>currentQuery := q', world := w'\<rparr>"]
      step[of "st2\<lparr>currentQuery := q2, world := w3\<rparr>"] step[of st2]
    by (auto simp: st2_def)
qed

lemma grade_chunks_logged:
  "grade_chunks (logged create) config q rs acc wl0 = (acc', wl) \<Longrightarrow>
   snd wl = snd wl0 @ map (\<lambda>c. grading_request config (content_r c) q) rs"
proof (induction rs arbitrary: acc wl0)
  case Nil
  then show ?case by auto
next
  case (Cons c rs)
  then show ?case
    by (auto simp: gradeChunkRelevance_def logged_def Let_def
        split: prod.splits completion.splits if_splits)
qed

lemma rewrite_logged:
  "rewriteQuery (logged create) wl0 oq config fb = (q', wl) \<Longrightarrow>
   snd wl = snd wl0 @ [rewrite_request config oq fb]"
  by (auto simp: rewriteQuery_def logged_def
      split: prod.splits completion.splits option.splits if_splits)

text \<open>The record of requests only grows while the loop runs.\<close>

lemma rag_loop_log_grows:
  assumes "rag_loop (logged create) hsearch config q maxIt topK st = Inr st'"
  shows "prefix (snd (world st)) (snd (world st'))"
proof (rule rag_loop_invariant[OF assms, where I = "\<lambda>acc wl. prefix (snd (world st)) (snd wl)"])
  show "prefix (snd (world st)) (snd (world st))" by simp
next
  fix rs acc wl acc' wl'
  assume "prefix (snd (world st)) (snd wl)"
    "grade_chunks (logged create) config q rs acc wl = (acc', wl')"
  then show "prefix (snd (world st)) (snd wl')"
    using grade_chunks_logged[of create config q rs acc wl acc' wl'] by (auto simp: prefix_def)
next
  fix oq fb and acc :: "SearchResult list" and wl q' wl'
  assume "prefix (snd (world st)) (snd wl)"
    "rewriteQuery (logged create) wl oq config fb = (q', wl')"
  then show "prefix (snd (world st)) (snd wl')"
    using rewrite_logged[of create wl oq config fb q' wl'] by (auto simp: prefix_def)
qed

text \<open>
  One pass of the loop from any state: whatever the current query is, the requests that
  follow are the grading requests for the chunks just retrieved, built from \<open>q\<close>.
\<close>

lemma rag_loop_grades_retrieved:
  assumes lt: "iteration st < maxIt"
    and hs: "hsearch (currentQuery st) topK = Inr rs"
    and run: "rag_loop (logged create) hsearch config q maxIt topK st = Inr st'"
  shows "prefix (snd (world st) @ map (\<lambda>c. grading_request config (content_r c) q) rs)
           (snd (world st'))"
proof (cases "rs = []")
  case True
  then show ?thesis using rag_loop_log_grows[OF run] by simp
next
  case False
  define st1 where "st1 = st\<lparr>iteration := iteration st + 1\<rparr>"
  obtain acc wl where gr: "grade_chunks (logged create) config q rs (allRelevantChunks st1)
      (world st1) = (acc, wl)" by (meson surj_pair)
  have lg: "snd wl = snd (world st) @ map (\<lambda>c. grading_request config (content_r c) q) rs"
    using grade_chunks_logged[OF gr] by (simp add: st1_def)
  define st2 where "st2 = st1\<lparr>allRelevantChunks := acc, world := wl\<rparr>"
  obtain q' wl' where rw: "rewriteQuery (logged create) wl q config
      (Some (shortfall_feedback (length acc))) = (q', wl')" by (meson surj_pair)
  have lg': "prefix (snd wl) (snd wl')" using rewrite_logged[OF rw] by simp
  have cases: "st' = st2
      \<or> rag_loop (logged create) hsearch config q maxIt topK
            (st2\<lparr>currentQuery := q', world := wl'\<rparr>) = Inr st'
      \<or> rag_loop (logged create) hsearch config q maxIt topK st2 = Inr st'"
    using run lt hs False gr rw
    by (subst (asm) rag_loop.simps) (auto simp: st1_def st2_def Let_def split: if_splits)
  have "prefix (snd wl) (snd (world st'))"
    using cases
  proof (elim disjE)
    assume "st' = st2"
    then show ?thesis by (simp add: st2_def)
  next
    assume "rag_loop (logged create) hsearch config q maxIt topK
            (st2\<lparr>currentQuery := q', world := wl'\<rparr>) = Inr st'"
    from rag_loop_log_grows[OF this] lg' show ?thesis by (auto intro: prefix_order.trans)
  next
    assume "rag_loop (logged create) hsearch config q maxIt topK st2 = Inr st'"
    from rag_loop_log_grows[OF this] show ?thesis by (simp add: st2_def)
  qed
  then show ?thesis by (simp only: lg)
qed

lemma rag_loop_done:
  "\<not> iteration st < maxIt \<Longrightarrow> rag_loop create hsearch config q maxIt topK st = Inr st"
  by (subst rag_loop.simps) simp

lemma rag_loop_last:
  assumes "iteration st + 1 = maxIt" "hsearch (currentQuery st) topK = Inr rs" "rs \<noteq> []"
    "grade_chunks create config q rs (allRelevantChunks st) (world st) = (acc, w')"
  shows "rag_loop create hsearch config q maxIt topK st =
         Inr (st\<lparr>iteration := maxIt, allRelevantChunks := acc, world := w'\<rparr>)"
proof -
  have "rag_loop create hsearch config q maxIt topK
          (st\<lparr>iteration := maxIt, allRelevantChunks := acc, world := w'\<rparr>) =
        Inr (st\<lparr>iteration := maxIt, allRelevantChunks := acc, world := w'\<rparr>)"
    by (rule rag_loop_done) simp
  then show ?thesis
    using assms by (subst rag_loop.simps) (auto simp: Let_def)
qed

text \<open>
  Claim C3: with \<open>maxIterations \<ge> 1\<close> the reported number of iterations never exceeds
  \<open>maxIterations\<close>, and the loop returns below that bound only with at least three accepted
  chunks; from any loop state, an iteration whose GRADE step leaves three or more accepted
  chunks is the last one; in particular sufficiency on the first pass gives
  \<open>iterations = 1\<close> whatever the budget.
\<close>

theorem iterations_bounded_and_stop_at_three:
  assumes "1 \<le> maxIterations"
  shows "(\<forall>r w'. correctiveRAGRetrieval (create :: 'w client) q hsearch config maxIterations topK w = Inr (r, w') \<longrightarrow>
            iterations r \<le> maxIterations \<and>
            (iterations r < maxIterations \<longrightarrow> 3 \<le> length (relevantChunks r)))
       \<and> (\<forall>st rs acc w'.
            iteration st < maxIterations \<and> hsearch (currentQuery st) topK = Inr rs \<and> rs \<noteq> [] \<and>
            grade_chunks create config q rs (allRelevantChunks st) (world st) = (acc, w') \<and>
            3 \<le> length acc \<longrightarrow>
            rag_loop create hsearch config q maxIterations topK st =
              Inr (st\<lparr>iteration := iteration st + 1, allRelevantChunks := acc, world := w'\<rparr>))
       \<and> (\<forall>rs acc w'.
            hsearch q topK = Inr rs \<and> rs \<noteq> [] \<and>
            grade_chunks create config q rs [] w = (acc, w') \<and> 3 \<le> length acc \<longrightarrow>
            correctiveRAGRetrieval create q hsearch config maxIterations topK w =
              Inr (\<lparr>query = q, finalQuery = q, iterations = 1, relevantChunks = acc,
                    totalFound = length acc\<rparr>, w'))"
proof (intro conjI allI impI)
  fix r w'
  assume run: "correctiveRAGRetrieval create q hsearch config maxIterations topK w = Inr (r, w')"
  then obtain st where loop: "rag_loop create hsearch config q maxIterations topK
      \<lparr>currentQuery = q, iteration = 0, allRelevantChunks = [], world = w\<rparr> = Inr st"
    and fin: "rag_finish hsearch q topK st = Inr (r, w')"
    by (auto simp: correctiveRAGRetrieval_def split: sum.splits)
  from rag_loop_iteration[OF loop]
  have b: "iteration st \<le> maxIterations"
    and s: "iteration st < maxIterations \<longrightarrow> 3 \<le> length (allRelevantChunks st)"
    by auto
  from fin have it: "iterations r = iteration st"
    and rel: "allRelevantChunks st \<noteq> [] \<longrightarrow> relevantChunks r = allRelevantChunks st"
    by (auto simp: rag_finish_def split: sum.splits if_splits)
  show "iterations r \<le> maxIterations" using b it by simp
  show "3 \<le> length (relevantChunks r)" if "iterations r < maxIterations"
    using that s it rel by auto
next
  fix st :: "'w rag_state" and rs acc w'
  assume "iteration st < maxIterations \<and> hsearch (currentQuery st) topK = Inr rs \<and> rs \<noteq> [] \<and>
            grade_chunks create config q rs (allRelevantChunks st) (world st) = (acc, w') \<and>
            3 \<le> length acc"
  then show "rag_loop create hsearch config q maxIterations topK st =
              Inr (st\<lparr>iteration := iteration st + 1, allRelevantChunks := acc, world := w'\<rparr>)"
    by (intro rag_loop_stop[where rs = rs]) simp_all
next
  fix rs acc w'
  assume a: "hsearch q topK = Inr rs \<and> rs \<noteq> [] \<and>
            grade_chunks create config q rs [] w = (acc, w') \<and> 3 \<le> length acc"
  let ?st = "\<lparr>currentQuery = q, iteration = 0, allRelevantChunks = [], world = w\<rparr>"
  have "rag_loop create hsearch config q maxIterations topK ?st =
         Inr (?st\<lparr>iteration := iteration ?st + 1, allRelevantChunks := acc, world := w'\<rparr>)"
    using a assms by (intro rag_loop_stop[where rs = rs]) auto
  then show "correctiveRAGRetrieval create q hsearch config maxIterations topK w =
              Inr (\<lparr>query = q, finalQuery = q, iterations = 1, relevantChunks = acc,
                    totalFound = length acc\<rparr>, w')"
    using a by (auto simp: correctiveRAGRetrieval_def rag_finish_def)
qed

theorem iterations_bounded_and_stop_at_three_witness:
  "(1::nat) \<le> 5 \<and>
   correctiveRAGRetrieval yes_client ''what methods?'' three_hits sample_config 5 3 () =
     Inr (\<lparr>query = ''what methods?'', finalQuery = ''what methods?'', iterations = 1,
           relevantChunks =
             map (\<lambda>i. (sample_result i)\<lparr>relevanceGrade := Some high_grade\<rparr>) [0, 1, 2],
           totalFound = 3\<rparr>, ())"
proof -
  have h: "(1::nat) \<le> 5" by simp
  have g: "three_hits ''what methods?'' 3 = Inr [sample_result 0, sample_result 1, sample_result 2] \<and>
      [sample_result 0, sample_result 1, sample_result 2] \<noteq> [] \<and>
      grade_chunks yes_client sample_config ''what methods?''
          [sample_result 0, sample_result 1, sample_result 2] [] ()
        = (map (\<lambda>i. (sample_result i)\<lparr>relevanceGrade := Some high_grade\<rparr>) [0, 1, 2], ()) \<and>
      3 \<le> length (map (\<lambda>i. (sample_result i)\<lparr>relevanceGrade := Some high_grade\<rparr>) [0, 1, 2::nat])"
    using grade_three_hits[of sample_config "''what methods?''"] by (simp add: three_hits_def)
  note t = iterations_bounded_and_stop_at_three[OF h, where create = yes_client
      and hsearch = three_hits and config = sample_config and q = "''what methods?''"
      and topK = 3 and w = "()"]
  from t[THEN conjunct2, THEN conjunct2, rule_format, OF g]
  show ?thesis using h by simp
qed

lemma first_pass_rewrites:
  "rag_loop (logged scripted_client) rewritten_hits sample_config ''what methods?'' 2 5
      \<lparr>currentQuery = ''what methods?'', iteration = 0, allRelevantChunks = [],
       world = (rewrite_script, [])\<rparr> =
   rag_loop (logged scripted_client) rewritten_hits sample_config ''what methods?'' 2 5
      after_rewrite"
  by (subst rag_loop.simps)
     (simp add: rewritten_hits_def rewrite_script_def gradeChunkRelevance_def logged_def
        parse_no_reply accepted_def rewriteQuery_def after_rewrite_def trim_def is_space_def
        Let_def)

lemma second_pass_grades:
  "rag_loop (logged scripted_client) rewritten_hits sample_config ''what methods?'' 2 5
      after_rewrite =
   Inr (after_rewrite
        \<lparr>iteration := 2,
         allRelevantChunks :=
           [(sample_result 1)\<lparr>content_r := ''deep networks'', relevanceGrade := Some high_grade\<rparr>],
         world := ([], snd (world after_rewrite) @
                    [grading_request sample_config ''deep networks'' ''what methods?''])\<rparr>)"
  by (rule rag_loop_last[where rs = "[(sample_result 1)\<lparr>content_r := ''deep networks''\<rparr>]"])
     (simp_all add: rewritten_hits_def after_rewrite_def gradeChunkRelevance_def logged_def
        parse_yes_reply accepted_def high_grade_def)

text \<open>
  Claim C7. The request that grades a chunk carries the prompt of \<open>gradeChunkRelevance\<close>
  with the query after \<open>Query:\<close> and the first 1000 characters of the chunk's content
  after \<open>Chunk:\<close>, and it is never a rewrite request. In the GRADE step every retrieved
  chunk, accepted before or not, is sent to the grader in order, in such a request built
  from the original query \<open>q\<close>. From any state of the loop, so also when the current
  query is a rewritten one, the requests that follow the search are these grading
  requests for the chunks just retrieved, with \<open>q\<close> and not the current query. Over a
  whole run every request the client receives is either a grading request for \<open>q\<close> and
  a chunk that the searcher returned, or a rewrite request.
\<close>

theorem grading_uses_original_query_and_prefix:
  "(\<forall>c. grading_request config c q =
        \<lparr>model_rq = model config,
         content_rq =
           ''You are a grading expert. Is this chunk relevant to the query?'' @ [LF, LF] @
           ''Query: '' @ q @ [LF, LF] @
           ''Chunk:'' @ [LF] @
           take 1000 c @ [LF, LF] @
           ''Format:'' @ [LF] @
           ''RELEVANT: yes or no'' @ [LF] @
           ''SCORE: high, medium, or low'' @ [LF] @
           ''REASON: brief explanation (1 sentence)'' @ [LF],
         temperature_rq = Fin (1 / 10), max_tokens_rq = 150\<rparr> \<and>
        (\<forall>oq fb. grading_request config c q \<noteq> rewrite_request config oq fb))
   \<and> (\<forall>rs acc wl0 acc' wl.
        grade_chunks (logged (create :: 'w client)) config q rs acc wl0 = (acc', wl) \<longrightarrow>
        snd wl = snd wl0 @ map (\<lambda>c. grading_request config (content_r c) q) rs)
   \<and> (\<forall>st rs st'.
        iteration st < maxIterations \<and> hsearch (currentQuery st) topK = Inr rs \<and>
        rag_loop (logged create) hsearch config q maxIterations topK st = Inr st' \<longrightarrow>
        prefix (snd (world st) @ map (\<lambda>c. grading_request config (content_r c) q) rs)
          (snd (world st')))
   \<and> (\<forall>r w' lg.
        correctiveRAGRetrieval (logged create) q hsearch config maxIterations topK (w, []) =
          Inr (r, (w', lg)) \<longrightarrow>
        (\<forall>rq \<in> set lg.
           (\<exists>cq rs c. hsearch cq topK = Inr rs \<and> c \<in> set rs \<and>
                      rq = grading_request config (content_r c) q)
           \<or> (\<exists>oq fb. rq = rewrite_request config oq fb)))"
proof (intro conjI allI impI)
  fix c
  show "grading_request config c q =
        \<lparr>model_rq = model config,
         content_rq =
           ''You are a grading expert. Is this chunk relevant to the query?'' @ [LF, LF] @
           ''Query: '' @ q @ [LF, LF] @
           ''Chunk:'' @ [LF] @
           take 1000 c @ [LF, LF] @
           ''Format:'' @ [LF] @
           ''RELEVANT: yes or no'' @ [LF] @
           ''SCORE: high, medium, or low'' @ [LF] @
           ''REASON: brief explanation (1 sentence)'' @ [LF],
         temperature_rq = Fin (1 / 10), max_tokens_rq = 150\<rparr>"
    by (simp add: grading_request_def gradingPrompt_def)
  fix oq fb
  show "grading_request config c q \<noteq> rewrite_request config oq fb"
    by (simp add: grading_request_def rewrite_request_def)
next
  fix rs acc wl0 acc' wl
  assume "grade_chunks (logged create) config q rs acc wl0 = (acc', wl)"
  then show "snd wl = snd wl0 @ map (\<lambda>c. grading_request config (content_r c) q) rs"
    by (rule grade_chunks_logged)
next
  fix st :: "('w \<times> request list) rag_state" and rs st'
  assume "iteration st < maxIterations \<and> hsearch (currentQuery st) topK = Inr rs \<and>
        rag_loop (logged create) hsearch config q maxIterations topK st = Inr st'"
  then show "prefix (snd (world st) @ map (\<lambda>c. grading_request config (content_r c) q) rs)
          (snd (world st'))"
    using rag_loop_grades_retrieved[of st maxIterations hsearch topK rs create config q st']
    by simp
next
  fix r w' lg
  assume run: "correctiveRAGRetrieval (logged create) q hsearch config maxIterations topK (w, []) =
          Inr (r, (w', lg))"
  define I :: "'w \<times> request list \<Rightarrow> bool" where
    "I = (\<lambda>wl. \<forall>rq \<in> set (snd wl).
           (\<exists>cq rs c. hsearch cq topK = Inr rs \<and> c \<in> set rs \<and>
                      rq = grading_request config (content_r c) q)
           \<or> (\<exists>oq fb. rq = rewrite_request config oq fb))"
  from run obtain st where loop: "rag_loop (logged create) hsearch config q maxIterations topK
      \<lparr>currentQuery = q, iteration = 0, allRelevantChunks = [], world = (w, [])\<rparr> = Inr st"
    and fin: "rag_finish hsearch q topK st = Inr (r, (w', lg))"
    by (auto simp: correctiveRAGRetrieval_def split: sum.splits)
  have "I (world st)"
  proof (rule rag_loop_invariant_search[OF loop, where I = "\<lambda>acc. I"])
    show "I (world \<lparr>currentQuery = q, iteration = 0, allRelevantChunks = [], world = (w, [])\<rparr>)"
      by (simp add: I_def)
  next
    fix cq rs acc wl0 acc' wl
    assume "hsearch cq topK = Inr rs" "I wl0"
      "grade_chunks (logged create) config q rs acc wl0 = (acc', wl)"
    then show "I wl"
      using grade_chunks_logged[of create config q rs acc wl0 acc' wl]
      by (auto simp: I_def)
  next
    fix oq fb wl0 q' wl
    assume "I wl0" "rewriteQuery (logged create) wl0 oq config fb = (q', wl)"
    then show "I wl"
      using rewrite_logged[of create wl0 oq config fb q' wl]
      by (auto simp: I_def)
  qed
  moreover from fin have "world st = (w', lg)"
    by (auto simp: rag_finish_def split: sum.splits if_splits)
  ultimately show "\<forall>rq \<in> set lg.
           (\<exists>cq rs c. hsearch cq topK = Inr rs \<and> c \<in> set rs \<and>
                      rq = grading_request config (content_r c) q)
           \<or> (\<exists>oq fb. rq = rewrite_request config oq fb)"
    by (simp add: I_def)
qed

theorem grading_uses_original_query_and_prefix_witness:
  "rag_loop (logged scripted_client) rewritten_hits sample_config ''what methods?'' 2 5
      \<lparr>currentQuery = ''what methods?'', iteration = 0, allRelevantChunks = [],
       world = (rewrite_script, [])\<rparr> =
     rag_loop (logged scripted_client) rewritten_hits sample_config ''what methods?'' 2 5
       after_rewrite \<and>
   currentQuery after_rewrite = ''which methods were used?'' \<and>
   iteration after_rewrite < 2 \<and>
   rewritten_hits (currentQuery after_rewrite) 5 =
     Inr [(sample_result 1)\<lparr>content_r := ''deep networks''\<rparr>] \<and>
   rag_loop (logged scripted_client) rewritten_hits sample_config ''what methods?'' 2 5
       after_rewrite =
     Inr (after_rewrite
          \<lparr>iteration := 2,
           allRelevantChunks :=
             [(sample_result 1)\<lparr>content_r := ''deep networks'',
                                relevanceGrade := Some high_grade\<rparr>],
           world := ([], snd (world after_rewrite) @
                      [grading_request sample_config ''deep networks'' ''what methods?''])\<rparr>) \<and>
   prefix (snd (world after_rewrite) @
             [grading_request sample_config ''deep networks'' ''what methods?''])
     [grading_request sample_config ''introduction'' ''what methods?'',
      rewrite_request sample_config ''what methods?'' (Some (shortfall_feedback 0)),
      grading_request sample_config ''deep networks'' ''what methods?''] \<and>
   correctiveRAGRetrieval (logged scripted_client) ''what methods?'' rewritten_hits sample_config
       2 5 (rewrite_script, []) =
     Inr (\<lparr>query = ''what methods?'', finalQuery = ''which methods were used?'', iterations = 2,
           relevantChunks =
             [(sample_result 1)\<lparr>content_r := ''deep networks'',
                                relevanceGrade := Some high_grade\<rparr>],
           totalFound = 1\<rparr>,
          ([], [grading_request sample_config ''introduction'' ''what methods?'',
                rewrite_request sample_config ''what methods?'' (Some (shortfall_feedback 0)),
                grading_request sample_config ''deep networks'' ''what methods?''])) \<and>
   content_rq (grading_request sample_config ''deep networks'' ''what methods?'') =
     ''You are a grading expert. Is this chunk relevant to the query?'' @ [LF, LF] @
     ''Query: what methods?'' @ [LF, LF] @
     ''Chunk:'' @ [LF] @
     ''deep networks'' @ [LF, LF] @
     ''Format:'' @ [LF] @
     ''RELEVANT: yes or no'' @ [LF] @
     ''SCORE: high, medium, or low'' @ [LF] @
     ''REASON: brief explanation (1 sentence)'' @ [LF]"
proof -
  note t = grading_uses_original_query_and_prefix[where create = scripted_client
      and config = sample_config and q = "''what methods?''" and hsearch = rewritten_hits
      and maxIterations = 2 and topK = 5 and w = rewrite_script]
  have h0: "currentQuery after_rewrite = ''which methods were used?''"
    by (simp add: after_rewrite_def)
  have h1: "iteration after_rewrite < 2" by (simp add: after_rewrite_def)
  have h2: "rewritten_hits (currentQuery after_rewrite) 5 =
      Inr [(sample_result 1)\<lparr>content_r := ''deep networks''\<rparr>]"
    by (simp add: after_rewrite_def rewritten_hits_def)
  have "prefix (snd (world after_rewrite) @
        map (\<lambda>c. grading_request sample_config (content_r c) ''what methods?'')
          [(sample_result 1)\<lparr>content_r := ''deep networks''\<rparr>])
      (snd (world (after_rewrite
        \<lparr>iteration := 2,
         allRelevantChunks :=
           [(sample_result 1)\<lparr>content_r := ''deep networks'', relevanceGrade := Some high_grade\<rparr>],
         world := ([], snd (world after_rewrite) @
                    [grading_request sample_config ''deep networks'' ''what methods?''])\<rparr>)))"
    using t[THEN conjunct2, THEN conjunct2, THEN conjunct1, rule_format,
        OF conjI[OF h1 conjI[OF h2 second_pass_grades]]] .
  then have p: "prefix (snd (world after_rewrite) @
             [grading_request sample_config ''deep networks'' ''what methods?''])
     [grading_request sample_config ''introduction'' ''what methods?'',
      rewrite_request sample_config ''what methods?'' (Some (shortfall_feedback 0)),
      grading_request sample_config ''deep networks'' ''what methods?'']"
    by (simp add: after_rewrite_def)
  have c: "content_rq (grading_request sample_config ''deep networks'' ''what methods?'') =
     ''You are a grading expert. Is this chunk relevant to the query?'' @ [LF, LF] @
     ''Query: what methods?'' @ [LF, LF] @
     ''Chunk:'' @ [LF] @
     ''deep networks'' @ [LF, LF] @
     ''Format:'' @ [LF] @
     ''RELEVANT: yes or no'' @ [LF] @
     ''SCORE: high, medium, or low'' @ [LF] @
     ''REASON: brief explanation (1 sentence)'' @ [LF]"
    using t[THEN conjunct1, rule_format, THEN conjunct1, of "''deep networks''"] by simp
  have run: "correctiveRAGRetrieval (logged scripted_client) ''what methods?'' rewritten_hits
       sample_config 2 5 (rewrite_script, []) =
     Inr (\<lparr>query = ''what methods?'', finalQuery = ''which methods were used?'', iterations = 2,
           relevantChunks =
             [(sample_result 1)\<lparr>content_r := ''deep networks'',
                                relevanceGrade := Some high_grade\<rparr>],
           totalFound = 1\<rparr>,
          ([], [grading_request sample_config ''introduction'' ''what methods?'',
                rewrite_request sample_config ''what methods?'' (Some (shortfall_feedback 0)),
                grading_request sample_config ''deep networks'' ''what methods?'']))"
    unfolding correctiveRAGRetrieval_def first_pass_rewrites second_pass_grades
    by (simp add: rag_finish_def after_rewrite_def)
  show ?thesis
    by (intro conjI) (rule first_pass_rewrites h0 h1 h2 second_pass_grades p run c)+
qed

section \<open>Properties of the search layer\<close>

lemma collect_total:
  "(\<And>x. x \<in> set xs \<Longrightarrow> f x = Inr (Some (g x))) \<Longrightarrow> collect f xs = Inr (map g xs)"
  by (induction xs) auto

lemma collect_filter:
  "(\<And>x. x \<in> set xs \<Longrightarrow> f x = Inr (if P x then Some (g x) else None)) \<Longrightarrow>
   collect f xs = Inr (map g (filter P xs))"
  by (induction xs) auto

lemma insertion_point_le:
  "left \<le> right \<Longrightarrow> insertion_point cmp pivot xs left right \<le> right"
proof (induction cmp pivot xs left right rule: insertion_point.induct)
  case (1 cmp pivot xs left right)
  show ?case
    using 1 by (subst insertion_point.simps) (auto simp: Let_def)
qed

lemma set_binary_insertion: "set (binary_insertion cmp run rest) = set run \<union> set rest"
proof (induction rest arbitrary: run)
  case Nil
  then show ?case by simp
next
  case (Cons pivot rest)
  have "set (take n run) \<union> set (drop n run) = set run" for n
    by (metis append_take_drop_id set_append)
  then show ?case using Cons by (auto simp: Let_def)
qed

lemma length_binary_insertion:
  "length (binary_insertion cmp run rest) = length run + length rest"
proof (induction rest arbitrary: run)
  case Nil
  then show ?case by simp
next
  case (Cons pivot rest)
  have "insertion_point cmp pivot run 0 (length run) \<le> length run"
    by (rule insertion_point_le) simp
  then show ?case using Cons by (simp add: Let_def)
qed

lemma distinct_binary_insertion:
  "distinct (map f (binary_insertion cmp run rest)) = distinct (map f (run @ rest))"
proof (induction rest arbitrary: run)
  case Nil
  then show ?case by simp
next
  case (Cons pivot rest)
  have "distinct (map f ((take n run @ pivot # drop n run) @ rest)) =
        distinct (map f (run @ pivot # rest))" for n
  proof -
    have "distinct (map f ((take n run @ pivot # drop n run) @ rest)) =
          distinct (map f (pivot # (take n run @ drop n run) @ rest))"
      by (auto simp del: append_take_drop_id)
    also have "\<dots> = distinct (map f (run @ pivot # rest))" by auto
    finally show ?thesis .
  qed
  then show ?case using Cons by (simp add: Let_def del: map_append append_assoc)
qed

lemma run_rest_le: "run_rest cmp d p xs \<le> length xs"
  by (induction xs arbitrary: p) auto

lemma js_sort_shape:
  "js_sort cmp xs = xs \<or>
   (\<exists>d n. js_sort cmp xs =
      binary_insertion cmp (if d then rev (take n xs) else take n xs) (drop n xs))"
proof (cases xs)
  case Nil
  then show ?thesis by (simp add: js_sort_def)
next
  case (Cons a as)
  show ?thesis
  proof (cases as)
    case Nil
    with Cons show ?thesis by (simp add: js_sort_def)
  next
    case (Cons b bs)
    with \<open>xs = a # as\<close> have xs: "xs = a # b # bs" by simp
    have "js_sort cmp xs =
        binary_insertion cmp
          (if precedes cmp b a then rev (take (2 + run_rest cmp (precedes cmp b a) b bs) xs)
           else take (2 + run_rest cmp (precedes cmp b a) b bs) xs)
          (drop (2 + run_rest cmp (precedes cmp b a) b bs) xs)"
      unfolding js_sort_def xs by (simp only: list.case Let_def)
    then show ?thesis by blast
  qed
qed

lemma set_run_rest:
  "set (if d then rev (take n xs) else take n xs) \<union> set (drop n xs) = set xs"
  using append_take_drop_id[of n xs] set_append[of "take n xs" "drop n xs"] by (cases d) simp_all

lemma set_js_sort: "set (js_sort cmp xs) = set xs"
  using js_sort_shape[of cmp xs] by (auto simp only: set_binary_insertion set_run_rest)

lemma length_js_sort: "length (js_sort cmp xs) = length xs"
  using js_sort_shape[of cmp xs] by (auto simp: length_binary_insertion)

lemma distinct_run_rest:
  "distinct (map f ((if d then rev (take n xs) else take n xs) @ drop n xs)) = distinct (map f xs)"
proof -
  have "distinct (map f (rev (take n xs) @ drop n xs)) = distinct (map f (take n xs @ drop n xs))"
    by (simp add: rev_map[symmetric] del: append_take_drop_id)
  then show ?thesis by (cases d) simp_all
qed

lemma distinct_js_sort: "distinct (map f (js_sort cmp xs)) = distinct (map f xs)"
  using js_sort_shape[of cmp xs]
  by (auto simp only: distinct_binary_insertion distinct_run_rest)

lemma digit_char_range: "d < 10 \<Longrightarrow> of_char (digit_char d) = 48 + d"
  by (simp add: digit_char_def)

lemma digit_val_digit_char: "d < 10 \<Longrightarrow> digit_val (digit_char d) = d"
  by (simp add: digit_val_def digit_char_range Let_def)

lemma show_nat_digits:
  "show_nat n \<noteq> [] \<and> (\<forall>c \<in> set (show_nat n). \<exists>d < 10. c = digit_char d)"
proof (induction n rule: show_nat.induct)
  case (1 n)
  show ?case
  proof (cases "n < 10")
    case True
    then show ?thesis by (auto simp: show_nat.simps[of n])
  next
    case False
    have "\<exists>d<10. digit_char (n mod 10) = digit_char d"
      by (rule exI[of _ "n mod 10"]) simp
    with 1 False show ?thesis by (auto simp: show_nat.simps[of n])
  qed
qed

lemma show_nat_value: "foldl (\<lambda>a c. a * 10 + digit_val c) 0 (show_nat n) = n"
proof (induction n rule: show_nat.induct)
  case (1 n)
  show ?case
  proof (cases "n < 10")
    case True
    then show ?thesis by (simp add: show_nat.simps[of n] digit_val_digit_char)
  next
    case False
    with 1 show ?thesis by (simp add: show_nat.simps[of n] digit_val_digit_char)
  qed
qed


lemma digit_char_props:
  assumes "d < 10"
  shows "\<not> is_space (digit_char d)" "digit_char d \<noteq> CHR ''-''" "digit_char d \<noteq> CHR ''+''"
    "digit_char d \<noteq> CHR ''x''" "digit_char d \<noteq> CHR ''X''" "digit_val (digit_char d) < 10"
proof -
  have r: "of_char (digit_char d) = 48 + d" using assms by (rule digit_char_range)
  show "\<not> is_space (digit_char d)" using assms by (simp add: is_space_def r)
  show "digit_val (digit_char d) < 10" using assms by (simp add: digit_val_digit_char)
  have "\<And>c. (of_char c :: nat) < 48 \<or> (of_char c :: nat) > 57 \<Longrightarrow> digit_char d \<noteq> c"
    using r assms by auto
  then show "digit_char d \<noteq> CHR ''-''" "digit_char d \<noteq> CHR ''+''"
    "digit_char d \<noteq> CHR ''x''" "digit_char d \<noteq> CHR ''X''"
    by simp_all
qed

lemma parseInt_show_nat: "parseInt (show_nat n) = Fin (real n)"
proof -
  obtain c cs where s: "show_nat n = c # cs"
    using show_nat_digits[of n] by (cases "show_nat n") auto
  have all: "\<forall>x \<in> set (c # cs). \<exists>d < 10. x = digit_char d"
    using show_nat_digits[of n] s by simp
  then obtain d where d: "d < 10" "c = digit_char d" by auto
  have s0: "dropWhile is_space (show_nat n) = show_nat n"
    using digit_char_props(1)[OF d(1)] d(2) s by simp
  have nosign: "\<not> startsWith (show_nat n) ''-''" "\<not> startsWith (show_nat n) ''+''"
    using digit_char_props(2,3)[OF d(1)] d(2) s by (auto simp: startsWith_def)
  have nohex: "\<not> startsWith (show_nat n) ''0x''" "\<not> startsWith (show_nat n) ''0X''"
  proof -
    show "\<not> startsWith (show_nat n) ''0x''"
    proof
      assume "startsWith (show_nat n) ''0x''"
      then obtain r where "cs = CHR ''x'' # r" using s by (cases cs) (auto simp: startsWith_def)
      with all obtain e where "e < 10" "CHR ''x'' = digit_char e" by auto
      with digit_char_props(4) show False by metis
    qed
    show "\<not> startsWith (show_nat n) ''0X''"
    proof
      assume "startsWith (show_nat n) ''0X''"
      then obtain r where "cs = CHR ''X'' # r" using s by (cases cs) (auto simp: startsWith_def)
      with all obtain e where "e < 10" "CHR ''X'' = digit_char e" by auto
      with digit_char_props(5) show False by metis
    qed
  qed
  have tw: "takeWhile (\<lambda>c. digit_val c < 10) (show_nat n) = show_nat n"
    using show_nat_digits[of n] digit_char_props(6) by (intro takeWhile_eq_all_conv[THEN iffD2]) auto
  have ne: "show_nat n \<noteq> []" using s by simp
  show ?thesis
    unfolding parseInt_def Let_def s0
    by (simp only: nosign nohex tw show_nat_value ne if_False simp_thms)
qed

lemma replace_chunk_prefix: "replace_first (''chunk_'' @ t) ''chunk_'' [] = t"
  by (simp add: startsWith_def)

lemma getChunkById_key:
  "c \<in> set (chunks vs) \<Longrightarrow>
   \<exists>c'. getChunkById vs (chunk_key c) = Some c' \<and> c' \<in> set (chunks vs) \<and> chunkId c' = chunkId c"
proof -
  assume c: "c \<in> set (chunks vs)"
  have eq: "getChunkById vs (chunk_key c) = find (\<lambda>x. chunkId x = chunkId c) (chunks vs)"
    unfolding getChunkById_def chunk_key_def
    by (simp only: replace_chunk_prefix parseInt_show_nat Let_def) simp
  from c have "find (\<lambda>x. chunkId x = chunkId c) (chunks vs) \<noteq> None"
    by (auto simp: find_None_iff)
  then obtain c' where f: "find (\<lambda>x. chunkId x = chunkId c) (chunks vs) = Some c'" by auto
  then have "c' \<in> set (chunks vs) \<and> chunkId c' = chunkId c"
    by (auto simp: find_Some_iff)
  with eq f show ?thesis by simp
qed



lemma length_embedding_fold:
  "length (foldl (\<lambda>e c. e[f c := g e c]) e0 xs) = length e0"
  by (induction xs arbitrary: e0) auto

lemma length_generateSimpleEmbedding: "length (generateSimpleEmbedding t) = 300"
  by (simp add: generateSimpleEmbedding_def Let_def length_embedding_fold)

lemma cosineSimilarity_ok:
  "length v1 = length v2 \<Longrightarrow> \<exists>s. cosineSimilarity v1 v2 = Inr s"
  by (simp add: cosineSimilarity_def Let_def)

definition sim_of :: "VectorStore \<Rightarrow> string \<Rightarrow> nat \<Rightarrow> jsnum" where
  "sim_of vs q i =
     (case cosineSimilarity (generateSimpleEmbedding q) (embeddings vs ! i) of
        Inr s \<Rightarrow> s | Inl e \<Rightarrow> NaN)"

lemma semanticSearch_explicit:
  assumes vs: "vs = addChunks vs0 cs"
  shows "semanticSearch vs q topK f =
     Inr (map (\<lambda>(i, sc). result_of (cs ! i) (chunk_key (cs ! i)) sc)
            (take topK (js_sort (\<lambda>a b. js_sub (snd b) (snd a))
               (map (\<lambda>i. (i, sim_of vs q i)) (candidateIndices cs f)))))"
proof -
  define qe where "qe = generateSimpleEmbedding q"
  define sim where "sim = sim_of vs q"
  have n: "length (embeddings vs) = length cs" "chunks vs = cs" by (simp_all add: vs addChunks_def)
  have cos: "i < length cs \<Longrightarrow> cosineSimilarity qe (embeddings vs ! i) = Inr (sim i)" for i
  proof -
    assume "i < length cs"
    then have "length (embeddings vs ! i) = 300"
      by (simp add: vs addChunks_def length_generateSimpleEmbedding)
    then obtain s where "cosineSimilarity qe (embeddings vs ! i) = Inr s"
      using cosineSimilarity_ok[of qe "embeddings vs ! i"]
      by (auto simp: qe_def length_generateSimpleEmbedding)
    then show ?thesis by (simp add: sim_def sim_of_def qe_def)
  qed
  have first: "collect
           (\<lambda>i. if truthy f \<and> nth_opt (chunks vs) i = None then Inl TypeError
                else if truthy f \<and> the f \<notin> set (tags (chunks vs ! i)) then Inr None
                else (case cosineSimilarity qe (embeddings vs ! i) of
                        Inl e \<Rightarrow> Inl e
                      | Inr similarity \<Rightarrow> Inr (Some (i, similarity))))
           [0 ..< length (embeddings vs)] =
        Inr (map (\<lambda>i. (i, sim i)) (candidateIndices cs f))"
    unfolding candidateIndices_def n
    by (rule collect_filter) (auto simp: nth_opt_def n cos tag_matches_def)
  define tops where "tops = take topK (js_sort (\<lambda>a b. js_sub (snd b) (snd a))
               (map (\<lambda>i. (i, sim i)) (candidateIndices cs f)))"
  have "set tops \<subseteq> set (map (\<lambda>i. (i, sim i)) (candidateIndices cs f))"
    unfolding tops_def using set_take_subset set_js_sort by metis
  then have inr: "\<And>x. x \<in> set tops \<Longrightarrow> fst x < length cs"
    by (auto simp: candidateIndices_def)
  have second: "collect
               (\<lambda>(index, sc). case nth_opt (chunks vs) index of
                    None \<Rightarrow> Inl TypeError
                  | Some chunk \<Rightarrow> Inr (Some (result_of chunk (chunk_key chunk) sc)))
               tops = Inr (map (\<lambda>(i, sc). result_of (cs ! i) (chunk_key (cs ! i)) sc) tops)"
    by (rule collect_total) (use inr in \<open>auto simp: nth_opt_def n\<close>)
  show ?thesis
    by (simp add: semanticSearch_def Let_def qe_def[symmetric] first tops_def[symmetric] second
        sim_def[symmetric])
qed


lemma getScores_ok: "\<exists>v. getScores bm q = Inr v"
proof -
  have "collect (\<lambda>index. case calculateScore bm (tokenize q) index of
                             Inl e \<Rightarrow> Inl e | Inr sc \<Rightarrow> Inr (Some sc))
           [0 ..< length (documents bm)] =
        Inr (map (\<lambda>i. case calculateScore bm (tokenize q) i of Inr sc \<Rightarrow> sc | Inl e \<Rightarrow> NaN)
               [0 ..< length (documents bm)])"
    by (rule collect_total) (auto simp: calculateScore_def nth_opt_def Let_def)
  then show ?thesis by (simp add: getScores_def Let_def)
qed


lemma build_results_ok:
  assumes "\<And>x. x \<in> set tops \<Longrightarrow> getChunkById vs (fst x) \<noteq> None"
  shows "build_results vs tops =
         Inr (map (\<lambda>(cid, sc). result_of (the (getChunkById vs cid)) cid sc) tops)"
  unfolding build_results_def
  by (rule collect_total) (use assms in \<open>auto split: option.splits\<close>)

lemma combinedScores_keys:
  "map fst (combinedScores cs alpha f mp bs) = map (\<lambda>i. chunk_key (cs ! i)) (candidateIndices cs f)"
  by (simp add: combinedScores_def Let_def comp_def)

lemma candidate_chunks:
  "map (\<lambda>i. cs ! i) (candidateIndices cs f) = filter (tag_matches f) cs"
proof -
  have "filter (tag_matches f) (map (\<lambda>i. cs ! i) [0 ..< length cs]) =
        map (\<lambda>i. cs ! i) (candidateIndices cs f)"
    by (simp add: candidateIndices_def filter_map comp_def)
  then show ?thesis by (simp add: map_nth)
qed

lemma candidate_keys:
  "map (\<lambda>i. chunk_key (cs ! i)) (candidateIndices cs f) = map chunk_key (filter (tag_matches f) cs)"
  using arg_cong[OF candidate_chunks[of cs f], of "map chunk_key"] by (simp add: comp_def)

lemma search_shape:
  assumes vs: "vectorStore hs = addChunks vs0 cs"
  shows "\<exists>tops. search hs q topK alpha f =
           Inr (map (\<lambda>(cid, sc). result_of (the (getChunkById (vectorStore hs) cid)) cid sc) tops)
       \<and> length tops = min topK (length (filter (tag_matches f) cs))
       \<and> set (map fst tops) \<subseteq> chunk_key ` set (filter (tag_matches f) cs)
       \<and> (distinct (map chunk_key (filter (tag_matches f) cs)) \<longrightarrow> distinct (map fst tops))"
proof -
  obtain sem where sem: "semanticSearch (vectorStore hs) q (topK * 2) f = Inr sem"
    using semanticSearch_explicit[OF vs] by blast
  obtain bs where bs: "getScores (bm25 hs) q = Inr bs" using getScores_ok by blast
  have cs: "chunks (vectorStore hs) = cs" by (simp add: vs addChunks_def)
  define comb where "comb = combinedScores cs alpha f (semanticScoreMap sem) bs"
  define tops where "tops = take topK (js_sort (\<lambda>a b. js_sub (snd b) (snd a)) comb)"
  have keys: "map fst comb = map chunk_key (filter (tag_matches f) cs)"
    by (simp add: comb_def combinedScores_keys candidate_keys)
  have len: "length tops = min topK (length (filter (tag_matches f) cs))"
    using arg_cong[OF keys, of length] by (simp add: tops_def length_js_sort min.commute)
  have sub: "set tops \<subseteq> set comb"
    unfolding tops_def using set_take_subset set_js_sort by metis
  then have sub': "set (map fst tops) \<subseteq> chunk_key ` set (filter (tag_matches f) cs)"
    using arg_cong[OF keys, of set] by auto
  have dist: "distinct (map fst tops)" if "distinct (map chunk_key (filter (tag_matches f) cs))"
  proof -
    have "distinct (map fst (js_sort (\<lambda>a b. js_sub (snd b) (snd a)) comb))"
      using that keys by (simp add: distinct_js_sort)
    then show ?thesis by (simp add: tops_def take_map[symmetric] distinct_take)
  qed
  have some: "getChunkById (vectorStore hs) (fst x) \<noteq> None" if "x \<in> set tops" for x
  proof -
    from that sub' obtain c where "c \<in> set cs" "fst x = chunk_key c" by auto
    then show ?thesis using getChunkById_key[of c "vectorStore hs"] cs by auto
  qed
  have "search hs q topK alpha f = build_results (vectorStore hs) tops"
    by (simp add: search_def sem bs getAllChunks_def cs comb_def tops_def)
  moreover have "build_results (vectorStore hs) tops =
      Inr (map (\<lambda>(cid, sc). result_of (the (getChunkById (vectorStore hs) cid)) cid sc) tops)"
    by (rule build_results_ok) (rule some)
  ultimately have "search hs q topK alpha f =
      Inr (map (\<lambda>(cid, sc). result_of (the (getChunkById (vectorStore hs) cid)) cid sc) tops)"
    by simp
  with len sub' dist show ?thesis
    by (intro exI[of _ tops] conjI impI)
qed

lemma show_nat_inj: "show_nat a = show_nat b \<Longrightarrow> a = b"
proof -
  assume "show_nat a = show_nat b"
  then have "parseInt (show_nat a) = parseInt (show_nat b)" by (rule arg_cong)
  then have "Fin (real a) = Fin (real b)" by (simp only: parseInt_show_nat)
  then show ?thesis by simp
qed

lemma chunk_key_inj: "chunk_key c = chunk_key d \<Longrightarrow> chunkId c = chunkId d"
  unfolding chunk_key_def by (rule show_nat_inj) simp

lemma distinct_keys:
  assumes d: "distinct (map chunkId cs)"
  shows "distinct (map chunk_key (filter P cs))"
proof -
  have "distinct (map chunkId (filter P cs))" using d by (rule distinct_map_filter)
  then have 1: "distinct (filter P cs)" and 2: "inj_on chunkId (set (filter P cs))"
    by (simp_all add: distinct_map)
  have "inj_on chunk_key (set (filter P cs))"
  proof (rule inj_onI)
    fix x y assume "x \<in> set (filter P cs)" "y \<in> set (filter P cs)" "chunk_key x = chunk_key y"
    then show "x = y" using 2 chunk_key_inj[of x y] by (meson inj_onD)
  qed
  with 1 show ?thesis by (simp add: distinct_map)
qed

lemma getChunkById_unique:
  assumes "distinct (map chunkId (chunks vs))" "c \<in> set (chunks vs)"
  shows "getChunkById vs (chunk_key c) = Some c"
proof -
  from getChunkById_key[OF assms(2)] obtain c' where
    c': "getChunkById vs (chunk_key c) = Some c'" "c' \<in> set (chunks vs)" "chunkId c' = chunkId c"
    by blast
  from assms(1) have "inj_on chunkId (set (chunks vs))" by (simp add: distinct_map)
  with c'(2,3) assms(2) have "c' = c" by (meson inj_onD)
  with c' show ?thesis by simp
qed

section \<open>Filtering, fallback and distinct results\<close>

lemma sample_searcher_store:
  "vectorStore sample_searcher = addChunks new_VectorStore sample_chunks"
  by (simp add: sample_searcher_def initialize_def new_HybridSearcher_def Let_def)

lemma search_props:
  assumes vs: "vectorStore hs = addChunks vs0 cs"
  shows "\<exists>rs. search hs q topK alpha f = Inr rs
       \<and> length rs = min topK (length (filter (tag_matches f) cs))
       \<and> (\<forall>x \<in> set rs. relevanceGrade x = None)
       \<and> (distinct (map chunkId cs) \<longrightarrow>
            distinct (map chunkId_r rs) \<and>
            (\<forall>x \<in> set rs. \<exists>c \<in> set (filter (tag_matches f) cs).
                x = result_of c (chunk_key c) (score_r x)))"
proof -
  from search_shape[OF vs, of q topK alpha f] obtain tops where
    s: "search hs q topK alpha f =
           Inr (map (\<lambda>(cid, sc). result_of (the (getChunkById (vectorStore hs) cid)) cid sc) tops)"
    and len: "length tops = min topK (length (filter (tag_matches f) cs))"
    and sub: "set (map fst tops) \<subseteq> chunk_key ` set (filter (tag_matches f) cs)"
    and dist: "distinct (map chunk_key (filter (tag_matches f) cs)) \<longrightarrow> distinct (map fst tops)"
    by blast
  let ?rs = "map (\<lambda>(cid, sc). result_of (the (getChunkById (vectorStore hs) cid)) cid sc) tops"
  have ids: "map chunkId_r ?rs = map fst tops"
    by (simp add: result_of_def split_def comp_def)
  have cs: "chunks (vectorStore hs) = cs" by (simp add: vs addChunks_def)
  have g: "\<forall>x \<in> set ?rs. relevanceGrade x = None" by (auto simp: result_of_def)
  have d: "distinct (map chunkId_r ?rs) \<and>
            (\<forall>x \<in> set ?rs. \<exists>c \<in> set (filter (tag_matches f) cs).
                x = result_of c (chunk_key c) (score_r x))" if dc: "distinct (map chunkId cs)"
  proof
    have "distinct (map fst tops)" using dist distinct_keys[OF dc] by blast
    then show "distinct (map chunkId_r ?rs)" by (simp only: ids)
    show "\<forall>x \<in> set ?rs. \<exists>c \<in> set (filter (tag_matches f) cs).
                x = result_of c (chunk_key c) (score_r x)"
    proof
      fix x assume "x \<in> set ?rs"
      then obtain cid sc where t: "(cid, sc) \<in> set tops"
        and x: "x = result_of (the (getChunkById (vectorStore hs) cid)) cid sc" by auto
      from t sub obtain c where c: "c \<in> set (filter (tag_matches f) cs)" "cid = chunk_key c"
        by force
      then have "getChunkById (vectorStore hs) cid = Some c"
        using getChunkById_unique[of "vectorStore hs" c] dc cs by simp
      with x c show "\<exists>c \<in> set (filter (tag_matches f) cs). x = result_of c (chunk_key c) (score_r x)"
        by (intro bexI[of _ c]) (simp_all add: result_of_def)
    qed
  qed
  show ?thesis
    by (rule exI[of _ ?rs]) (use s len g d in \<open>simp del: set_map\<close>)
qed


lemma tag_matches_simps:
  "tag_matches None c" "tag_matches (Some []) c"
  "t \<noteq> [] \<Longrightarrow> tag_matches (Some t) c = (t \<in> set (tags c))"
  by (simp_all add: tag_matches_def truthy_def)

text \<open>The empty string as filter value is the absent filter.\<close>

lemma search_ignores_empty_filter:
  "search hs q topK alpha (Some []) = search hs q topK alpha None"
proof -
  have "semanticSearch vs q k (Some []) = semanticSearch vs q k None" for vs k
    by (simp add: semanticSearch_def truthy_def)
  moreover have "combinedScores cs alpha (Some []) mp bs = combinedScores cs alpha None mp bs"
    for cs mp bs
    by (simp add: combinedScores_def candidateIndices_def tag_matches_def truthy_def)
  ultimately show ?thesis by (simp only: search_def)
qed

text \<open>
  Over the store with one id twice, every result carries that id and the tags of the
  first chunk that has it, the one \<open>getChunkById\<close> finds.
\<close>

lemma twin_searcher_store:
  "vectorStore twin_searcher = addChunks new_VectorStore twin_chunks"
  by (simp add: twin_searcher_def initialize_def new_HybridSearcher_def Let_def)

lemma getChunkById_find:
  "getChunkById vs (chunk_key c) = find (\<lambda>x. chunkId x = chunkId c) (chunks vs)"
  unfolding getChunkById_def chunk_key_def
  by (simp only: replace_chunk_prefix parseInt_show_nat Let_def) simp

lemma twin_search:
  "\<exists>rs. search twin_searcher q topK alpha f = Inr rs \<and>
        length rs = min topK (length (filter (tag_matches f) twin_chunks)) \<and>
        map chunkId_r rs = replicate (length rs) ''chunk_0'' \<and>
        map tags_r rs = replicate (length rs) [''x'']"
proof -
  from search_shape[OF twin_searcher_store, of q topK alpha f] obtain tops where
    s: "search twin_searcher q topK alpha f =
           Inr (map (\<lambda>(cid, sc). result_of (the (getChunkById (vectorStore twin_searcher) cid)) cid sc) tops)"
    and len: "length tops = min topK (length (filter (tag_matches f) twin_chunks))"
    and sub: "set (map fst tops) \<subseteq> chunk_key ` set (filter (tag_matches f) twin_chunks)"
    by blast
  have key: "chunk_key c = ''chunk_0''" if "c \<in> set twin_chunks" for c
    using that by (auto simp: twin_chunks_def sample_chunk_def chunk_key_def show_nat_small)
  have k0: "chunk_key (sample_chunk 0 [''x'']) = ''chunk_0''"
    by (rule key) (simp add: twin_chunks_def)
  have g: "getChunkById (vectorStore twin_searcher) ''chunk_0'' = Some (sample_chunk 0 [''x''])"
    using getChunkById_find[of "vectorStore twin_searcher" "sample_chunk 0 [''x'']"]
    by (simp only: k0) (simp add: twin_searcher_store addChunks_def twin_chunks_def sample_chunk_def)
  have fst: "\<forall>t \<in> set tops. fst t = ''chunk_0''" using sub key by auto
  let ?rs = "map (\<lambda>(cid, sc). result_of (the (getChunkById (vectorStore twin_searcher) cid)) cid sc) tops"
  have "map chunkId_r ?rs = map fst tops" by (simp add: result_of_def split_def comp_def)
  also have "\<dots> = replicate (length tops) ''chunk_0''"
    using fst by (simp add: map_replicate_const[symmetric] cong: map_cong)
  finally have ids: "map chunkId_r ?rs = replicate (length ?rs) ''chunk_0''" by simp
  have "map tags_r ?rs = map (\<lambda>t. [''x'']) tops"
    by (rule map_cong[OF refl, THEN trans[OF map_map]])
       (use fst g in \<open>auto simp: result_of_def sample_chunk_def\<close>)
  then have tg: "map tags_r ?rs = replicate (length ?rs) [''x'']"
    by (simp add: map_replicate_const)
  show ?thesis
    by (rule exI[of _ ?rs]) (use s len ids tg in simp)
qed


text \<open>
  Claim C6, as amended: over a store whose chunk ids are unique, a hybrid search with a
  non-empty tag filter \<open>t\<close> returns, for every query, \<open>topK\<close> and \<open>alpha\<close> (so also for
  \<open>alpha = 0\<close> and \<open>alpha = 1\<close>), only chunks whose tags contain \<open>t\<close>; the candidates are
  filtered before they are scored, so the result has \<open>min topK n\<close> entries for \<open>n\<close> matching
  chunks, none when no chunk matches. The empty string as filter value is treated as no
  filter: the search returns what it returns without one.
\<close>

theorem tag_filter_excludes_other_chunks:
  assumes "vectorStore hs = addChunks vs0 cs" "distinct (map chunkId cs)" "t \<noteq> []"
  shows "(\<exists>rs. search hs q topK alpha (Some t) = Inr rs \<and>
              (\<forall>r \<in> set rs. t \<in> set (tags_r r)) \<and>
              length rs = min topK (length (filter (\<lambda>c. t \<in> set (tags c)) cs))) \<and>
         search hs q topK alpha (Some []) = search hs q topK alpha None"
proof
  from search_props[OF assms(1), of q topK alpha "Some t"] assms(2) obtain rs where
    s: "search hs q topK alpha (Some t) = Inr rs"
    and len: "length rs = min topK (length (filter (tag_matches (Some t)) cs))"
    and el: "\<forall>x \<in> set rs. \<exists>c \<in> set (filter (tag_matches (Some t)) cs).
                x = result_of c (chunk_key c) (score_r x)"
    by blast
  have f: "filter (tag_matches (Some t)) cs = filter (\<lambda>c. t \<in> set (tags c)) cs"
    using assms(3) by (intro filter_cong refl) (simp add: tag_matches_def truthy_def)
  have "\<forall>r \<in> set rs. t \<in> set (tags_r r)"
  proof
    fix r assume "r \<in> set rs"
    with el obtain c where "c \<in> set (filter (\<lambda>c. t \<in> set (tags c)) cs)"
      "r = result_of c (chunk_key c) (score_r r)" unfolding f by blast
    then have "t \<in> set (tags c)" "tags_r r = tags c"
      by (simp_all add: result_of_def) (metis SearchResult.select_convs(5))
    then show "t \<in> set (tags_r r)" by simp
  qed
  with s len f show "\<exists>rs. search hs q topK alpha (Some t) = Inr rs \<and>
              (\<forall>r \<in> set rs. t \<in> set (tags_r r)) \<and>
              length rs = min topK (length (filter (\<lambda>c. t \<in> set (tags c)) cs))" by auto
  show "search hs q topK alpha (Some []) = search hs q topK alpha None"
    by (rule search_ignores_empty_filter)
qed


lemma sample_chunks_distinct: "distinct (map chunkId sample_chunks)"
  by (simp add: sample_chunks_def sample_chunk_def)

theorem tag_filter_excludes_other_chunks_witness:
  "vectorStore sample_searcher = addChunks new_VectorStore sample_chunks \<and>
   distinct (map chunkId sample_chunks) \<and> ''summary'' \<noteq> [] \<and>
   (\<exists>rs. search sample_searcher ''overview'' 5 (Fin 0) (Some ''summary'') = Inr rs \<and>
         (\<forall>r \<in> set rs. ''summary'' \<in> set (tags_r r)) \<and> length rs = 1)"
proof -
  have h3: "''summary'' \<noteq> []" by simp
  from tag_filter_excludes_other_chunks[OF sample_searcher_store sample_chunks_distinct h3,
      of "''overview''" 5 "Fin 0", THEN conjunct1]
  have "\<exists>rs. search sample_searcher ''overview'' 5 (Fin 0) (Some ''summary'') = Inr rs \<and>
         (\<forall>r \<in> set rs. ''summary'' \<in> set (tags_r r)) \<and> length rs = 1"
    by (simp add: sample_chunks_def sample_chunk_def)
  with sample_searcher_store sample_chunks_distinct h3 show ?thesis by blast
qed

text \<open>
  Claim C6 as stated fails for the empty string as filter value: \<open>tagFilter ? ... : true\<close>
  treats it like an absent filter, and the search returns a chunk whose tags do not
  contain it.
\<close>

theorem empty_tag_filter_is_ignored:
  "\<exists>r rs. search sample_searcher ''overview'' 5 (Fin (1 / 2)) (Some []) = Inr (r # rs) \<and>
          [] \<notin> set (tags_r r)"
proof -
  from search_props[OF sample_searcher_store, of "''overview''" 5 "Fin (1 / 2)" "Some []"]
    sample_chunks_distinct
  obtain xs where s: "search sample_searcher ''overview'' 5 (Fin (1 / 2)) (Some []) = Inr xs"
    and len: "length xs = min 5 (length (filter (tag_matches (Some [])) sample_chunks))"
    and el: "\<forall>x \<in> set xs. \<exists>c \<in> set (filter (tag_matches (Some [])) sample_chunks).
                x = result_of c (chunk_key c) (score_r x)"
    by blast
  have "length xs = 2" using len by (simp add: tag_matches_simps sample_chunks_def)
  then obtain r rs where xs: "xs = r # rs" by (cases xs) auto
  with el obtain c where "c \<in> set sample_chunks" "r = result_of c (chunk_key c) (score_r r)"
    by auto
  then have "tags_r r = [''summary''] \<or> tags_r r = [''findings'']"
    by (auto simp: sample_chunks_def sample_chunk_def result_of_def)
       (metis SearchResult.select_convs(5))+
  then have "[] \<notin> set (tags_r r)" by auto
  with s xs show ?thesis by blast
qed

text \<open>
  The uniqueness of the chunk ids is needed. A result is built from the chunk that
  \<open>getChunkById\<close> finds for the id, the first one that has it: over the store with one id
  twice, the filter \<open>y\<close> selects the second chunk and the search returns the first, whose
  tags do not contain \<open>y\<close>.
\<close>

lemma duplicate_ids_leak_filtered_chunk:
  "\<exists>r. search twin_searcher ''overview'' 5 (Fin (1 / 2)) (Some ''y'') = Inr [r] \<and>
        ''y'' \<notin> set (tags_r r)"
proof -
  from twin_search[of "''overview''" 5 "Fin (1 / 2)" "Some ''y''"] obtain rs where
    s: "search twin_searcher ''overview'' 5 (Fin (1 / 2)) (Some ''y'') = Inr rs"
    and len: "length rs = min 5 (length (filter (tag_matches (Some ''y'')) twin_chunks))"
    and tg: "map tags_r rs = replicate (length rs) [''x'']"
    by blast
  have "length rs = 1"
    using len by (simp add: tag_matches_def truthy_def twin_chunks_def sample_chunk_def)
  then obtain r where rs: "rs = [r]" by (cases rs) auto
  with tg have "tags_r r = [''x'']" by simp
  with s rs show ?thesis by auto
qed

text \<open>
  Claim C4: the retrieval over a hybrid searcher returns; whenever the loop ends with an
  empty accepted set, the result is exactly what one more hybrid search with the original
  query and \<open>topK\<close> returns, ungraded; and over a non-empty store and with \<open>topK \<ge> 1\<close> its
  \<open>relevantChunks\<close> is never empty.
\<close>

theorem fallback_search_never_empty:
  assumes "vectorStore hs = addChunks vs0 cs"
  shows "\<exists>r w'. correctiveRAGRetrieval create q (searcher_of hs) config maxIterations topK w = Inr (r, w') \<and>
          (cs \<noteq> [] \<and> 1 \<le> topK \<longrightarrow> relevantChunks r \<noteq> []) \<and>
          (\<forall>st. rag_loop create (searcher_of hs) config q
                   maxIterations topK
                   \<lparr>currentQuery = q, iteration = 0, allRelevantChunks = [], world = w\<rparr> = Inr st \<and>
                 allRelevantChunks st = [] \<longrightarrow>
                 search hs q topK (Fin (1 / 2)) None = Inr (relevantChunks r) \<and>
                 (\<forall>x \<in> set (relevantChunks r). relevanceGrade x = None))"
proof -
  let ?h = "searcher_of hs"
  let ?st0 = "\<lparr>currentQuery = q, iteration = 0, allRelevantChunks = [], world = w\<rparr>"
  have total: "\<And>cq k. \<exists>rs. ?h cq k = Inr rs"
    unfolding searcher_of_def using search_props[OF assms(1)] by blast
  from rag_loop_returns[of ?h create config q maxIterations topK ?st0, OF total]
  obtain st where loop: "rag_loop create ?h config q maxIterations topK ?st0 = Inr st" by blast
  from search_props[OF assms(1), of q topK "Fin (1 / 2)" None] obtain rs where
    s: "search hs q topK (Fin (1 / 2)) None = Inr rs"
    and len: "length rs = min topK (length (filter (tag_matches None) cs))"
    and ung: "\<forall>x \<in> set rs. relevanceGrade x = None"
    by blast
  have "length rs = min topK (length cs)" using len by (simp add: tag_matches_simps)
  then have ne: "rs \<noteq> []" if "cs \<noteq> [] \<and> 1 \<le> topK" using that by (cases cs) auto
  define found where "found = (if allRelevantChunks st = [] then rs else allRelevantChunks st)"
  define r where "r = \<lparr>query = q, finalQuery = currentQuery st, iterations = iteration st,
      relevantChunks = found, totalFound = length found\<rparr>"
  have run: "correctiveRAGRetrieval create q (searcher_of hs) config maxIterations topK w = Inr (r, world st)"
    by (simp add: correctiveRAGRetrieval_def searcher_of_def loop rag_finish_def s r_def found_def)
  have "cs \<noteq> [] \<and> 1 \<le> topK \<longrightarrow> relevantChunks r \<noteq> []" using ne by (simp add: r_def found_def)
  moreover have "search hs q topK (Fin (1 / 2)) None = Inr (relevantChunks r) \<and>
                 (\<forall>x \<in> set (relevantChunks r). relevanceGrade x = None)"
    if "rag_loop create ?h config q maxIterations topK ?st0 = Inr st' \<and> allRelevantChunks st' = []"
    for st'
    using that loop s ung by (simp add: r_def found_def)
  ultimately show ?thesis using run by blast
qed

theorem fallback_search_never_empty_witness:
  "vectorStore sample_searcher = addChunks new_VectorStore sample_chunks \<and>
   sample_chunks \<noteq> [] \<and> (1::nat) \<le> 5 \<and>
   (\<exists>r w'. correctiveRAGRetrieval failing_client ''what methods?'' (searcher_of sample_searcher) sample_config
              0 5 () = Inr (r, w') \<and> relevantChunks r \<noteq> [])"
proof -
  have h2: "sample_chunks \<noteq> []" by (simp add: sample_chunks_def)
  have h3: "(1::nat) \<le> 5" by simp
  from fallback_search_never_empty[OF sample_searcher_store,
      of failing_client "''what methods?''" sample_config 0 5 "()"] h2 h3
  have "\<exists>r w'. correctiveRAGRetrieval failing_client ''what methods?'' (searcher_of sample_searcher) sample_config
              0 5 () = Inr (r, w') \<and> relevantChunks r \<noteq> []"
    by blast
  with sample_searcher_store h2 h3 show ?thesis by blast
qed





section \<open>Empty store, empty query, empty corpus\<close>

lemma js_add_NaN [simp]: "js_add s NaN = NaN"
  by (cases s) simp_all

lemma squares_of_zeros:
  "foldl (\<lambda>sum val. js_add sum (js_mul val val)) (Fin 0) (replicate n (Fin 0)) = Fin 0"
  by (induction n) simp_all

lemma embedding_of_empty: "generateSimpleEmbedding [] = replicate 300 NaN"
  by (simp add: generateSimpleEmbedding_def toLowerCase_def Let_def squares_of_zeros
      js_inf_def js_sign_def map_replicate)

lemma dot_with_NaN:
  "length v = n \<Longrightarrow> 0 < n \<Longrightarrow>
   foldl (\<lambda>s (x, y). js_add s (js_mul x y)) s0 (zip (replicate n NaN) v) = NaN"
proof (induction n arbitrary: v s0)
  case 0
  then show ?case by simp
next
  case (Suc n)
  then obtain y ys where v: "v = y # ys" "length ys = n" by (cases v) auto
  show ?case
  proof (cases n)
    case 0
    with v show ?thesis by simp
  next
    case (Suc k)
    with v Suc.IH[of ys NaN] show ?thesis by simp
  qed
qed

lemma cosine_with_NaN:
  "length v = 300 \<Longrightarrow> cosineSimilarity (replicate 300 NaN) v = Inr NaN"
  using dot_with_NaN[of v 300 "Fin 0"] by (simp add: cosineSimilarity_def Let_def)

lemma insertion_point_end:
  "(\<And>y. y \<in> set xs \<Longrightarrow> \<not> precedes cmp pivot y) \<Longrightarrow> left \<le> right \<Longrightarrow> right \<le> length xs \<Longrightarrow>
   insertion_point cmp pivot xs left right = right"
proof (induction cmp pivot xs left right rule: insertion_point.induct)
  case (1 cmp pivot xs left right)
  show ?case
  proof (cases "left < right")
    case True
    let ?mid = "left + (right - left) div 2"
    have m: "?mid < length xs" "?mid + 1 \<le> right" using True 1(5) by auto
    then have "\<not> precedes cmp pivot (xs ! ?mid)" using 1(3) by simp
    then show ?thesis
      using 1(2)[OF True refl _ 1(3)] m 1(5) True
      by (subst insertion_point.simps) (auto simp: Let_def)
  next
    case False
    then show ?thesis using 1(4) by (subst insertion_point.simps) simp
  qed
qed

lemma binary_insertion_all_equal:
  "(\<And>x y. x \<in> set (run @ rest) \<Longrightarrow> y \<in> set (run @ rest) \<Longrightarrow> \<not> precedes cmp x y) \<Longrightarrow>
   binary_insertion cmp run rest = run @ rest"
proof (induction rest arbitrary: run)
  case Nil
  then show ?case by simp
next
  case (Cons pivot rest)
  have "insertion_point cmp pivot run 0 (length run) = length run"
    by (rule insertion_point_end) (use Cons.prems in auto)
  moreover have "binary_insertion cmp (run @ [pivot]) rest = (run @ [pivot]) @ rest"
    by (rule Cons.IH) (use Cons.prems in auto)
  ultimately show ?case by (simp add: Let_def)
qed

lemma run_rest_all_equal:
  "(\<And>x y. x \<in> set (p # xs) \<Longrightarrow> y \<in> set (p # xs) \<Longrightarrow> \<not> precedes cmp x y) \<Longrightarrow>
   run_rest cmp False p xs = length xs"
  by (induction xs arbitrary: p) auto

lemma js_sort_all_equal:
  assumes "\<And>x y. x \<in> set xs \<Longrightarrow> y \<in> set xs \<Longrightarrow> \<not> precedes cmp x y"
  shows "js_sort cmp xs = xs"
proof (cases xs)
  case Nil
  then show ?thesis by (simp add: js_sort_def)
next
  case (Cons a as)
  show ?thesis
  proof (cases as)
    case Nil
    with Cons show ?thesis by (simp add: js_sort_def)
  next
    case (Cons b bs)
    have d: "\<not> precedes cmp b a" using assms \<open>xs = a # as\<close> Cons by simp
    have "run_rest cmp False b bs = length bs"
      by (rule run_rest_all_equal) (use assms \<open>xs = a # as\<close> Cons in auto)
    then show ?thesis using d \<open>xs = a # as\<close> Cons by (simp add: js_sort_def Let_def)
  qed
qed


text \<open>
  Claim C9. On an empty store \<open>semanticSearch\<close> returns the empty sequence for every query,
  and the empty query takes the same path as any other. But the embedding of the empty
  string is \<open>0 / 0\<close> in each of its 300 components, so every similarity is \<open>NaN\<close>, the
  comparator orders nothing, and the first \<open>topK\<close> candidates come back in store order
  with score \<open>NaN\<close>, which is not a descending sequence: \<open>NaN \<ge> NaN\<close> is false.
\<close>

theorem empty_store_and_empty_query:
  "semanticSearch new_VectorStore q topK f = Inr [] \<and>
   semanticSearch (addChunks vs0 []) q topK f = Inr [] \<and>
   semanticSearch (addChunks vs0 cs) [] topK f =
     Inr (map (\<lambda>c. result_of c (chunk_key c) NaN) (take topK (filter (tag_matches f) cs))) \<and>
   \<not> js_ge NaN NaN"
proof (intro conjI)
  have e: "new_VectorStore = addChunks vs0 []" by (simp add: new_VectorStore_def addChunks_def)
  show "semanticSearch (addChunks vs0 []) q topK f = Inr []"
    by (simp add: semanticSearch_explicit[OF refl] candidateIndices_def js_sort_def)
  then show "semanticSearch new_VectorStore q topK f = Inr []" by (simp only: e)
  show "\<not> js_ge NaN NaN" by (simp add: js_ge_def)
  let ?vs = "addChunks vs0 cs"
  have sim: "sim_of ?vs [] i = NaN" if "i < length cs" for i
    using that
    by (simp add: sim_of_def embedding_of_empty addChunks_def cosine_with_NaN
        length_generateSimpleEmbedding)
  have sc: "map (\<lambda>i. (i, sim_of ?vs [] i)) (candidateIndices cs f) =
        map (\<lambda>i. (i, NaN)) (candidateIndices cs f)"
    by (rule map_cong) (auto simp: candidateIndices_def sim)
  have srt: "js_sort (\<lambda>a b. js_sub (snd b) (snd a)) (map (\<lambda>i. (i, NaN)) (candidateIndices cs f)) =
        map (\<lambda>i. (i, NaN)) (candidateIndices cs f)"
    by (rule js_sort_all_equal) (auto simp: js_sub_def precedes_def)
  have res: "map (\<lambda>(i, sc). result_of (cs ! i) (chunk_key (cs ! i)) sc)
        (take topK (map (\<lambda>i. (i, NaN)) (candidateIndices cs f))) =
      map (\<lambda>c. result_of c (chunk_key c) NaN) (take topK (filter (tag_matches f) cs))"
    by (simp add: take_map comp_def candidate_chunks[symmetric])
  show "semanticSearch ?vs [] topK f =
     Inr (map (\<lambda>c. result_of c (chunk_key c) NaN) (take topK (filter (tag_matches f) cs)))"
    by (simp only: semanticSearch_explicit[OF refl] sc srt res)
qed


text \<open>
  Claim C5, as amended: after \<open>initialize\<close> on no documents, \<open>getScores\<close> returns the
  empty sequence for every query; the average document length has been computed all the
  same, as \<open>0 / 0\<close>, which does not raise and leaves \<open>NaN\<close> in a field that no score reads.
\<close>

theorem empty_corpus_scores_nothing:
  "getScores (initialize_BM25 bm []) q = Inr [] \<and>
   documents (initialize_BM25 bm []) = [] \<and>
   avgDocLength (initialize_BM25 bm []) = NaN"
  by (simp add: getScores_def initialize_BM25_def calculateIDF_def Let_def js_inf_def js_sign_def)

text \<open>
  Claim C5 as stated says the build short-circuits instead of dividing. It does not: the
  field that a fresh index holds as \<open>0\<close> is overwritten with the quotient \<open>0 / 0\<close>.
\<close>

theorem empty_corpus_average_is_computed:
  "avgDocLength new_BM25 = Fin 0 \<and>
   avgDocLength (initialize_BM25 new_BM25 []) = js_div (Fin 0) (js_nat (length ([] :: nat list))) \<and>
   avgDocLength (initialize_BM25 new_BM25 []) = NaN"
  by (simp add: new_BM25_def initialize_BM25_def calculateIDF_def Let_def js_inf_def js_sign_def)

section \<open>Properties of the segmentation engine\<close>

definition count_ok :: "Chunk \<Rightarrow> bool" where
  "count_ok c = (charCount c = Some (length (content c)))"

lemma splitLargeChunk_count: "list_all count_ok (splitLargeChunk cc hdr maxSize ovl)"
  by (auto simp: splitLargeChunk_def Let_def list_all_iff count_ok_def)

lemma raw_chunk_count: "list_all count_ok (raw_chunk ranges mt)"
  by (simp add: raw_chunk_def Let_def count_ok_def)

lemma combine_subset: "set (snd (snd (combine n cc ch cs))) \<subseteq> set cs"
  by (induction cs arbitrary: cc ch) auto

lemma process_count:
  "list_all count_ok raw \<Longrightarrow> list_all count_ok (process config raw)"
proof (induction config raw rule: process.induct)
  case (1 config)
  then show ?case by (simp add: process.simps)
next
  case (2 config current rest)
  obtain cc ch rest' where cb:
    "combine (minChunkSize config) (content current) (header current) rest = (cc, ch, rest')"
    by (metis prod_cases3)
  have sub: "set rest' \<subseteq> set rest"
    using combine_subset[of "minChunkSize config" "content current" "header current" rest] cb
    by simp
  from "2.prems" have cur: "count_ok current" and rst: "list_all count_ok rest" by simp_all
  then have rst': "list_all count_ok rest'" using sub by (auto simp: list_all_iff)
  show ?case
  proof (cases "containsTable current = Some True")
    case True
    then show ?thesis using "2.IH"(1) cur rst by (simp add: process.simps)
  next
    case nt: False
    show ?thesis
    proof (cases "case charCount current of None \<Rightarrow> False | Some n \<Rightarrow> n < minChunkSize config")
      case True
      have ih: "list_all count_ok (process config rest')"
        using "2.IH"(2)[OF nt True cb[symmetric] refl] rst' by simp
      have one: "count_ok \<lparr>header = ch, content = cc, charCount = Some (length cc),
          containsTable = Some False\<rparr>"
        by (simp add: count_ok_def)
      show ?thesis
        using nt True cb ih splitLargeChunk_count one
        by (simp add: process.simps)
    next
      case small: False
      show ?thesis
      proof (cases "case charCount current of None \<Rightarrow> False | Some n \<Rightarrow> maxChunkSize config < n")
        case True
        then show ?thesis
          using nt small "2.IH"(3) rst splitLargeChunk_count by (simp add: process.simps)
      next
        case False
        then show ?thesis
          using nt small "2.IH"(4) cur rst by (simp add: process.simps)
      qed
    qed
  qed
qed

text \<open>
  Claim C8: every chunk that \<open>chunkDocument\<close> returns has \<open>charCount\<close> equal to the length
  of its content, whichever path produced it (a section kept as it is, sections
  combined, a section split, the fallback without sections); so has every chunk of
  \<open>splitLargeChunk\<close>, whose content is the trimmed piece.
\<close>

theorem charCount_is_content_length:
  "(\<forall>c \<in> set (chunkDocument markdownText config). charCount c = Some (length (content c))) \<and>
   (\<forall>c \<in> set (splitLargeChunk chunkContent hdr maxSize ovl).
      charCount c = Some (length (content c)))"
proof
  have raw: "list_all count_ok (concat (map (raw_chunk ranges) ms))" for ranges ms
    using raw_chunk_count[unfolded list_all_iff] by (auto simp: list_all_iff)
  have "list_all count_ok (chunkDocument markdownText config)"
    unfolding chunkDocument_def Let_def
    using process_count[OF raw]
    by (auto simp: list_all_iff count_ok_def)
  then show "\<forall>c \<in> set (chunkDocument markdownText config). charCount c = Some (length (content c))"
    by (simp add: list_all_iff count_ok_def)
  show "\<forall>c \<in> set (splitLargeChunk chunkContent hdr maxSize ovl).
      charCount c = Some (length (content c))"
    using splitLargeChunk_count[of chunkContent hdr maxSize ovl]
    by (simp add: list_all_iff count_ok_def)
qed

lemma sections_doc_chunks:
  "map header (chunkDocument sections_doc \<lparr>minChunkSize = 12, maxChunkSize = 8000, overlap = 50\<rparr>) =
     [''A + B'', ''C'']"
  by code_simp

theorem charCount_is_content_length_witness:
  "map header (chunkDocument sections_doc \<lparr>minChunkSize = 12, maxChunkSize = 8000, overlap = 50\<rparr>) =
     [''A + B'', ''C''] \<and>
   list_all (\<lambda>c. charCount c = Some (length (content c)))
     (chunkDocument sections_doc \<lparr>minChunkSize = 12, maxChunkSize = 8000, overlap = 50\<rparr>)"
  using charCount_is_content_length[of sections_doc
      "\<lparr>minChunkSize = 12, maxChunkSize = 8000, overlap = 50\<rparr>"] sections_doc_chunks
  by (simp add: list_all_iff)

text \<open>
  Claim C2 asks that a detected table lies within one chunk, also when there is no
  section. The fallback never looks at the table ranges: a text of three table rows and
  no heading, longer than \<open>maxChunkSize\<close>, is cut at its line ends, and no chunk holds the
  table that \<open>extractTables\<close> found.
\<close>

theorem table_split_in_headerless_document:
  "extractTables table_doc = [(table_doc, 0, 18)] \<and>
   match_all headerPattern ([], table_doc) = [] \<and>
   map content (chunkDocument table_doc tight_config) =
     [''|a|b|'', ''b| |-|-|'', ''-| |c|d|'', ''d| ''] \<and>
   \<not> list_ex (\<lambda>c. includes_str (content c) table_doc) (chunkDocument table_doc tight_config)"
  by code_simp

section \<open>A grading call that fails\<close>

lemma empty_reply_is_rejected:
  "create w (grading_request config c q) = (Completed None, w') \<Longrightarrow>
   gradeChunkRelevance create w c q config =
     (\<lparr>relevant = False, score = Low, reason = ''Unknown''\<rparr>, w') \<and>
   \<not> accepted \<lparr>relevant = False, score = Low, reason = ''Unknown''\<rparr>"
  by (simp add: gradeChunkRelevance_def parse_grade_def parse_line_def startsWith_def accepted_def)

lemma grade_all_rejected:
  "distinct (map chunkId_r rs) \<Longrightarrow> set (map chunkId_r rs) \<inter> set (map chunkId_r acc) = {} \<Longrightarrow>
   grade_chunks failing_client config q rs acc () =
     (acc @ map (\<lambda>r. r\<lparr>relevanceGrade := Some error_grade\<rparr>) rs, ())"
proof (induction rs arbitrary: acc)
  case Nil
  then show ?case by simp
next
  case (Cons r rs)
  have g: "gradeChunkRelevance failing_client () (content_r r) q config = (error_grade, ())"
    by (simp add: gradeChunkRelevance_def failing_client_def error_grade_def)
  have new: "\<not> list_ex (\<lambda>c. chunkId_r c = chunkId_r r) acc"
    using Cons.prems(2) by (auto simp: list_ex_iff) (metis imageI)
  have "grade_chunks failing_client config q rs (acc @ [r\<lparr>relevanceGrade := Some error_grade\<rparr>]) () =
     ((acc @ [r\<lparr>relevanceGrade := Some error_grade\<rparr>]) @
        map (\<lambda>r. r\<lparr>relevanceGrade := Some error_grade\<rparr>) rs, ())"
    using Cons.prems by (intro Cons.IH) auto
  then show ?case using g new by (simp add: accepted_def error_grade_def)
qed

text \<open>
  Claim C1 asks that a chunk whose grading call failed is never accepted. The code does the
  opposite when the call throws: the \<open>catch\<close> branch of \<open>gradeChunkRelevance\<close> returns
  \<open>relevant: true, score: 'medium'\<close>, which the ACCEPT test lets through, so the chunk is
  pushed onto the accepted set. With a client whose every call fails, the two chunks of
  the sample store come back accepted, each with the grade of the \<open>catch\<close> branch. A call
  that completes without content is parsed from the defaults and is rejected
  (\<open>empty_reply_is_rejected\<close>).
\<close>

theorem failed_grading_call_accepts_chunk:
  assumes "create w (grading_request config (content_r chunk) q) = (Rejected, w')"
    and "\<not> list_ex (\<lambda>c. chunkId_r c = chunkId_r chunk) acc"
  shows "gradeChunkRelevance create w (content_r chunk) q config = (error_grade, w') \<and>
         accepted error_grade \<and>
         grade_chunks create config q [chunk] acc w =
           (acc @ [chunk\<lparr>relevanceGrade := Some error_grade\<rparr>], w')"
  using assms
  by (simp add: gradeChunkRelevance_def error_grade_def accepted_def)

theorem failed_grading_call_accepts_chunk_witness:
  "failing_client () (grading_request sample_config (content_r (sample_result 0)) ''what methods?'')
     = (Rejected, ()) \<and>
   \<not> list_ex (\<lambda>c. chunkId_r c = chunkId_r (sample_result 0)) [] \<and>
   grade_chunks failing_client sample_config ''what methods?'' [sample_result 0] [] () =
     ([(sample_result 0)\<lparr>relevanceGrade := Some error_grade\<rparr>], ()) \<and>
   (\<exists>rs. search sample_searcher ''what methods?'' 5 (Fin (1 / 2)) None = Inr rs \<and> length rs = 2 \<and>
      correctiveRAGRetrieval failing_client ''what methods?'' (searcher_of sample_searcher)
          sample_config 1 5 () =
        Inr (\<lparr>query = ''what methods?'', finalQuery = ''what methods?'', iterations = 1,
              relevantChunks = map (\<lambda>r. r\<lparr>relevanceGrade := Some error_grade\<rparr>) rs,
              totalFound = 2\<rparr>, ()))"
proof -
  have h1: "failing_client () (grading_request sample_config (content_r (sample_result 0))
      ''what methods?'') = (Rejected, ())"
    by (simp add: failing_client_def)
  have h2: "\<not> list_ex (\<lambda>c. chunkId_r c = chunkId_r (sample_result 0)) []" by simp
  note t = failed_grading_call_accepts_chunk[where create = failing_client and w = "()"
      and config = sample_config and chunk = "sample_result 0" and q = "''what methods?''"
      and w' = "()" and acc = "[]", OF h1 h2]
  have g: "grade_chunks failing_client sample_config ''what methods?'' [sample_result 0] [] () =
     ([(sample_result 0)\<lparr>relevanceGrade := Some error_grade\<rparr>], ())"
    using t[THEN conjunct2, THEN conjunct2] by (simp only: append_Nil)
  from search_props[OF sample_searcher_store, of "''what methods?''" 5 "Fin (1 / 2)" None]
    sample_chunks_distinct
  obtain rs where s: "search sample_searcher ''what methods?'' 5 (Fin (1 / 2)) None = Inr rs"
    and len: "length rs = min 5 (length (filter (tag_matches None) sample_chunks))"
    and d: "distinct (map chunkId_r rs)"
    by blast
  have len2: "length rs = 2" using len by (simp add: tag_matches_simps sample_chunks_def)
  let ?graded = "map (\<lambda>r. r\<lparr>relevanceGrade := Some error_grade\<rparr>) rs"
  let ?st0 = "\<lparr>currentQuery = ''what methods?'', iteration = 0, allRelevantChunks = [], world = ()\<rparr>"
  have gr: "grade_chunks failing_client sample_config ''what methods?'' rs [] () = (?graded, ())"
    using grade_all_rejected[OF d, of "[]" sample_config "''what methods?''"] by simp
  have "rag_loop failing_client (searcher_of sample_searcher) sample_config ''what methods?'' 1 5 ?st0 =
      Inr (?st0\<lparr>iteration := 1, allRelevantChunks := ?graded, world := ()\<rparr>)"
    by (rule rag_loop_last[where rs = rs]) (use s len2 gr in \<open>auto simp: searcher_of_def\<close>)
  then have "correctiveRAGRetrieval failing_client ''what methods?'' (searcher_of sample_searcher)
          sample_config 1 5 () =
        Inr (\<lparr>query = ''what methods?'', finalQuery = ''what methods?'', iterations = 1,
              relevantChunks = ?graded, totalFound = 2\<rparr>, ())"
    using len2 by (auto simp: correctiveRAGRetrieval_def rag_finish_def)
  with h1 h2 g s len2 show ?thesis by blast
qed

end
